theory Spec2Isabelle
  imports Main "HOL-Library.Word"
begin

section \<open>The buffer cache of kernel/bio.c\<close>

text \<open>
  A shallow embedding of \<^verbatim>\<open>kernel/bio.c\<close>: the sharded buffer cache with one
  circular doubly-linked list per bucket, threaded through the \<^verbatim>\<open>prev\<close>/\<^verbatim>\<open>next\<close>
  fields of the buffers themselves. The lists are modelled as the code has them, as
  pointers in a store, and every C statement on a pointer is one store update.
\<close>

subsection \<open>Data\<close>

type_synonym uint = "32 word"

text \<open>
  Addresses of \<^verbatim>\<open>struct buf\<close> objects: \<open>Table i\<close> is \<^verbatim>\<open>&bcache.table[i]\<close> (the list
  head of bucket \<open>i\<close>), \<open>Buf j\<close> is \<^verbatim>\<open>&bcache.buf[j]\<close>, and \<open>Null\<close> is the C null
  pointer (\<^verbatim>\<open>b = 0\<close>).
\<close>

datatype ptr = Null | Table nat | Buf nat

text \<open>
  Addresses of spinlocks: \<^verbatim>\<open>bcache.lock[i]\<close> and the kernel's \<^verbatim>\<open>tickslock\<close>.
\<close>

datatype lockaddr = bcache_lock nat | tickslock

text \<open>
  Modelled from the spec: \<^verbatim>\<open>struct spinlock\<close> and \<^verbatim>\<open>struct sleeplock\<close>
  (spinlock.h, sleeplock.h are not part of the sources at hand). A structural lock is a
  mutual-exclusion lock, an exclusive lock is a blocking mutex; each is either free or
  held by one thread, named by a number.
\<close>

type_synonym spinlock = "nat option"
type_synonym sleeplock = "nat option"

type_synonym block = "8 word list"

text \<open>
  Modelled from the spec: \<^verbatim>\<open>struct buf\<close> (buf.h is not part of the sources at hand):
  device, block number, validity flag, recency timestamp, reference count, exclusive
  lock and content; \<^verbatim>\<open>prev\<close> and \<^verbatim>\<open>next\<close> are the links bio.c uses. The integer
  fields are \<^verbatim>\<open>uint\<close>, as the parameters of \<^verbatim>\<open>bget\<close> are.
\<close>

record buf =
  valid :: bool
  dev :: uint
  blockno :: uint
  lock :: sleeplock
  refcnt :: uint
  prev :: ptr
  "next" :: ptr
  data :: block
  timestamp :: uint

text \<open>
  The kernel state bio.c works on: the store of buffers (\<^verbatim>\<open>bcache.table\<close> and
  \<^verbatim>\<open>bcache.buf\<close>), the spinlocks, the tick counter \<^verbatim>\<open>ticks\<close>, the disk behind
  \<^verbatim>\<open>virtio_disk_rw\<close>, and the list of transfers that were asked of it (latest first).
\<close>

record kstate =
  mem :: "ptr \<Rightarrow> buf"
  spin :: "lockaddr \<Rightarrow> spinlock"
  ticks :: uint
  disk :: "uint \<times> uint \<Rightarrow> block"
  io :: "(ptr \<times> bool) list"

text \<open>
  What a call does: it returns a value, or the kernel panics, or the calling thread
  waits for a spinlock or sleeps on a sleeplock somebody else holds. Each outcome carries
  the state at that moment. In this sequential model no other thread runs, so a thread
  that has to wait stays where it is.
\<close>

datatype 'a outcome =
    Return 'a kstate
  | Panic string kstate
  | Spin kstate
  | Sleep kstate

fun state_of :: "'a outcome \<Rightarrow> kstate" where
  "state_of (Return x s) = s"
| "state_of (Panic msg s) = s"
| "state_of (Spin s) = s"
| "state_of (Sleep s) = s"

fun returned :: "'a outcome \<Rightarrow> 'a option" where
  "returned (Return x s) = Some x"
| "returned (Panic msg s) = None"
| "returned (Spin s) = None"
| "returned (Sleep s) = None"

definition NBUCKET :: nat where
  "NBUCKET = 13"

definition HASH :: "uint \<Rightarrow> nat" where
  "HASH x = unat (x mod 13)"

definition upd :: "ptr \<Rightarrow> (buf \<Rightarrow> buf) \<Rightarrow> kstate \<Rightarrow> kstate" where
  "upd p f s = s\<lparr>mem := (mem s)(p := f (mem s p))\<rparr>"

subsection \<open>Locks and the disk\<close>

text \<open>
  Modelled from the spec: \<^verbatim>\<open>holding\<close>, \<^verbatim>\<open>acquire\<close>, \<^verbatim>\<open>release\<close> and \<^verbatim>\<open>initlock\<close> of spinlock.c,
  which is not part of the sources at hand. The spec reads the test
  \<^verbatim>\<open>if (!holding(lk)) acquire(lk); else continue;\<close> as a non-blocking attempt that skips
  the bucket when its lock is held, by another thread or by the caller: \<open>holding\<close> is
  true of a lock that is held. \<open>acquire\<close> is the blocking acquire: \<open>None\<close> says that the
  caller has to wait.
\<close>

definition holding :: "lockaddr \<Rightarrow> kstate \<Rightarrow> bool" where
  "holding lk s = (spin s lk \<noteq> None)"

definition acquire :: "nat \<Rightarrow> lockaddr \<Rightarrow> kstate \<Rightarrow> kstate option" where
  "acquire t lk s =
     (if spin s lk = None then Some (s\<lparr>spin := (spin s)(lk := Some t)\<rparr>) else None)"

definition release :: "lockaddr \<Rightarrow> kstate \<Rightarrow> kstate" where
  "release lk s = s\<lparr>spin := (spin s)(lk := None)\<rparr>"

definition initlock :: "lockaddr \<Rightarrow> kstate \<Rightarrow> kstate" where
  "initlock lk s = s\<lparr>spin := (spin s)(lk := None)\<rparr>"

text \<open>
  Modelled from the spec: \<^verbatim>\<open>holdingsleep\<close>, \<^verbatim>\<open>acquiresleep\<close>, \<^verbatim>\<open>releasesleep\<close> and
  \<^verbatim>\<open>initsleeplock\<close> of sleeplock.c, which is not part of the sources at hand:
  \<open>holdingsleep\<close> says that the caller holds the exclusive lock of the buffer.
\<close>

definition holdingsleep :: "nat \<Rightarrow> ptr \<Rightarrow> kstate \<Rightarrow> bool" where
  "holdingsleep t b s = (lock (mem s b) = Some t)"

definition acquiresleep :: "nat \<Rightarrow> ptr \<Rightarrow> kstate \<Rightarrow> kstate option" where
  "acquiresleep t b s =
     (if lock (mem s b) = None then Some (upd b (\<lambda>x. x\<lparr>lock := Some t\<rparr>) s) else None)"

definition releasesleep :: "ptr \<Rightarrow> kstate \<Rightarrow> kstate" where
  "releasesleep b s = upd b (\<lambda>x. x\<lparr>lock := None\<rparr>) s"

definition initsleeplock :: "ptr \<Rightarrow> kstate \<Rightarrow> kstate" where
  "initsleeplock b s = upd b (\<lambda>x. x\<lparr>lock := None\<rparr>) s"

text \<open>
  Modelled from the spec: \<^verbatim>\<open>virtio_disk_rw(b, write)\<close> of virtio_disk.c, which is not
  part of the sources at hand. A read fills the content of the buffer from its device
  and block, a write stores the content there; each call is recorded in \<open>io\<close>.
\<close>

definition virtio_disk_rw :: "ptr \<Rightarrow> bool \<Rightarrow> kstate \<Rightarrow> kstate" where
  "virtio_disk_rw b w s =
     (let x = mem s b; s1 = s\<lparr>io := (b, w) # io s\<rparr>
      in if w then s1\<lparr>disk := (disk s)((dev x, blockno x) := data x)\<rparr>
         else upd b (\<lambda>y. y\<lparr>data := disk s (dev x, blockno x)\<rparr>) s1)"

subsection \<open>binit\<close>

text \<open>
  The first loop of \<^verbatim>\<open>binit\<close>: \<^verbatim>\<open>initlock\<close>, then the head of bucket \<open>i\<close> points to
  itself in both directions.
\<close>

definition init_bucket :: "nat \<Rightarrow> kstate \<Rightarrow> kstate" where
  "init_bucket i s =
     (let s1 = initlock (bcache_lock i) s;
          s2 = upd (Table i) (\<lambda>x. x\<lparr>prev := Table i\<rparr>) s1;
          s3 = upd (Table i) (\<lambda>x. x\<lparr>next := Table i\<rparr>) s2
      in s3)"

text \<open>
  The four statements that put \<open>b\<close> at the front of the list of bucket \<open>id\<close>
  (\<^verbatim>\<open>bget\<close>, lines 113 to 116):
  \<^verbatim>\<open>b->next = table[id].next; b->prev = &table[id]; table[id].next->prev = b; table[id].next = b;\<close>
\<close>

definition push_front :: "nat \<Rightarrow> ptr \<Rightarrow> kstate \<Rightarrow> kstate" where
  "push_front id' b s =
     (let s1 = upd b (\<lambda>x. x\<lparr>next := next (mem s (Table id'))\<rparr>) s;
          s2 = upd b (\<lambda>x. x\<lparr>prev := Table id'\<rparr>) s1;
          s3 = upd (next (mem s2 (Table id'))) (\<lambda>x. x\<lparr>prev := b\<rparr>) s2;
          s4 = upd (Table id') (\<lambda>x. x\<lparr>next := b\<rparr>) s3
      in s4)"

text \<open>
  The body of the second loop of \<^verbatim>\<open>binit\<close>: the same four statements on bucket 0, with
  \<^verbatim>\<open>initsleeplock\<close> after the second.
\<close>

definition init_buf :: "ptr \<Rightarrow> kstate \<Rightarrow> kstate" where
  "init_buf b s =
     (let s1 = upd b (\<lambda>x. x\<lparr>next := next (mem s (Table 0))\<rparr>) s;
          s2 = upd b (\<lambda>x. x\<lparr>prev := Table 0\<rparr>) s1;
          s3 = initsleeplock b s2;
          s4 = upd (next (mem s3 (Table 0))) (\<lambda>x. x\<lparr>prev := b\<rparr>) s3;
          s5 = upd (Table 0) (\<lambda>x. x\<lparr>next := b\<rparr>) s4
      in s5)"

text \<open>
  \<^verbatim>\<open>binit\<close>, for a pool of \<open>NBUF\<close> buffers (\<^verbatim>\<open>NBUF\<close> is a constant of param.h, which is
  not part of the sources at hand, so it is a parameter here).
\<close>

definition binit :: "nat \<Rightarrow> kstate \<Rightarrow> kstate" where
  "binit NBUF s =
     fold (\<lambda>j. init_buf (Buf j)) [0..<NBUF] (fold init_bucket [0..<NBUCKET] s)"

subsection \<open>bget\<close>

text \<open>
  The lookup loop of \<^verbatim>\<open>bget\<close> (lines 77 to 84), from \<open>b\<close> up to the list head \<open>h\<close>:
  the first buffer with the device and block asked for, or \<open>None\<close> when the loop ends
  at the head. The outer option is the loop itself, which need not end in a store that
  is not a well-formed list.
\<close>

partial_function (option) cached :: "(ptr \<Rightarrow> buf) \<Rightarrow> uint \<Rightarrow> uint \<Rightarrow> ptr \<Rightarrow> ptr \<Rightarrow> ptr option option" where
  "cached m dv bn h b =
     (if b \<noteq> h
      then (if dev (m b) = dv \<and> blockno (m b) = bn then Some (Some b)
            else cached m dv bn h (next (m b)))
      else Some None)"

text \<open>
  The inner loop of the scan (lines 102 to 105), from \<open>tmp\<close> up to the list head \<open>h\<close>,
  with the candidate \<open>b\<close> found so far.
\<close>

partial_function (option) lru :: "(ptr \<Rightarrow> buf) \<Rightarrow> ptr \<Rightarrow> ptr \<Rightarrow> ptr \<Rightarrow> ptr option" where
  "lru m h tmp b =
     (if tmp \<noteq> h
      then lru m h (next (m tmp))
             (if refcnt (m tmp) = 0 \<and> (b = Null \<or> timestamp (m tmp) < timestamp (m b))
              then tmp else b)
      else Some b)"

text \<open>
  Taking \<open>b\<close> out of its list (lines 109 and 110):
  \<^verbatim>\<open>b->next->prev = b->prev; b->prev->next = b->next;\<close>
\<close>

definition unlink :: "ptr \<Rightarrow> kstate \<Rightarrow> kstate" where
  "unlink b s =
     (let s1 = upd (next (mem s b)) (\<lambda>x. x\<lparr>prev := prev (mem s b)\<rparr>) s;
          s2 = upd (prev (mem s1 b)) (\<lambda>x. x\<lparr>next := next (mem s1 b)\<rparr>) s1
      in s2)"

text \<open>
  The branch \<^verbatim>\<open>if (b)\<close> of the scan (lines 106 to 129), for the candidate \<open>b\<close> found
  while bucket \<open>i\<close> was scanned: move it to bucket \<open>id\<close> when \<open>i\<close> is another bucket,
  give it its new identity, stamp it, release the lock of \<open>id\<close> and take the sleeplock.
\<close>

definition recycle :: "nat \<Rightarrow> uint \<Rightarrow> uint \<Rightarrow> nat \<Rightarrow> nat \<Rightarrow> ptr \<Rightarrow> kstate \<Rightarrow> ptr outcome" where
  "recycle t dv bn id' i b s =
     (let s1 = (if i \<noteq> id' then push_front id' b (release (bcache_lock i) (unlink b s)) else s);
          s2 = upd b (\<lambda>x. x\<lparr>dev := dv\<rparr>) s1;
          s3 = upd b (\<lambda>x. x\<lparr>blockno := bn\<rparr>) s2;
          s4 = upd b (\<lambda>x. x\<lparr>valid := False\<rparr>) s3;
          s5 = upd b (\<lambda>x. x\<lparr>refcnt := 1\<rparr>) s4
      in case acquire t tickslock s5 of
           None \<Rightarrow> Spin s5
         | Some s6 \<Rightarrow>
             (let s7 = upd b (\<lambda>x. x\<lparr>timestamp := ticks s6\<rparr>) s6;
                  s8 = release tickslock s7;
                  s9 = release (bcache_lock id') s8
              in case acquiresleep t b s9 of
                   None \<Rightarrow> Sleep s9
                 | Some s10 \<Rightarrow> Return b s10))"

text \<open>
  The scan (lines 90 to 135):
  \<^verbatim>\<open>for (int i = id, cycle = 0; cycle != NBUCKET; i = (i + 1) % NBUCKET)\<close>, with the
  candidate \<open>b\<close> carried from one bucket to the next as the C variable is. The
  \<^verbatim>\<open>continue\<close> of line 99 goes to the next bucket.
\<close>

partial_function (option) scan :: "nat \<Rightarrow> uint \<Rightarrow> uint \<Rightarrow> nat \<Rightarrow> kstate \<Rightarrow> nat \<Rightarrow> nat \<Rightarrow> ptr \<Rightarrow> ptr outcome option" where
  "scan t dv bn id' s i cycle b =
     (if cycle \<noteq> NBUCKET then
        (let cycle = cycle + 1 in
         if i \<noteq> id' \<and> holding (bcache_lock i) s
         then scan t dv bn id' s ((i + 1) mod NBUCKET) cycle b
         else
           (case (if i \<noteq> id' then acquire t (bcache_lock i) s else Some s) of
              None \<Rightarrow> Some (Spin s)
            | Some s1 \<Rightarrow>
                Option.bind (lru (mem s1) (Table i) (next (mem s1 (Table i))) b)
                  (\<lambda>b. if b \<noteq> Null then Some (recycle t dv bn id' i b s1)
                       else scan t dv bn id' (if i \<noteq> id' then release (bcache_lock i) s1 else s1)
                              ((i + 1) mod NBUCKET) cycle b)))
      else Some (Panic ''bget: no buffers'' s))"

text \<open>
  \<^verbatim>\<open>bget(dev, blockno)\<close>, called by thread \<open>t\<close>.
\<close>

definition bget :: "nat \<Rightarrow> uint \<Rightarrow> uint \<Rightarrow> kstate \<Rightarrow> ptr outcome option" where
  "bget t dv bn s =
     (let id' = HASH bn in
      case acquire t (bcache_lock id') s of
        None \<Rightarrow> Some (Spin s)
      | Some s1 \<Rightarrow>
          Option.bind (cached (mem s1) dv bn (Table id') (next (mem s1 (Table id'))))
            (\<lambda>r. case r of
                   Some b \<Rightarrow>
                     (let s2 = upd b (\<lambda>x. x\<lparr>refcnt := refcnt x + 1\<rparr>) s1;
                          s3 = release (bcache_lock id') s2
                      in case acquiresleep t b s3 of
                           None \<Rightarrow> Some (Sleep s3)
                         | Some s4 \<Rightarrow> Some (Return b s4))
                 | None \<Rightarrow> scan t dv bn id' s1 id' 0 Null))"

subsection \<open>bread, bwrite, brelse, bpin, bunpin\<close>

definition bread :: "nat \<Rightarrow> uint \<Rightarrow> uint \<Rightarrow> kstate \<Rightarrow> ptr outcome option" where
  "bread t dv bn s =
     Option.bind (bget t dv bn s)
       (\<lambda>r. case r of
              Return b s1 \<Rightarrow>
                (if \<not> valid (mem s1 b)
                 then (let s2 = virtio_disk_rw b False s1;
                           s3 = upd b (\<lambda>x. x\<lparr>valid := True\<rparr>) s2
                       in Some (Return b s3))
                 else Some (Return b s1))
            | Panic msg s1 \<Rightarrow> Some (Panic msg s1)
            | Spin s1 \<Rightarrow> Some (Spin s1)
            | Sleep s1 \<Rightarrow> Some (Sleep s1))"

definition bwrite :: "nat \<Rightarrow> ptr \<Rightarrow> kstate \<Rightarrow> unit outcome" where
  "bwrite t b s =
     (if \<not> holdingsleep t b s then Panic ''bwrite'' s
      else Return () (virtio_disk_rw b True s))"

definition brelse :: "nat \<Rightarrow> ptr \<Rightarrow> kstate \<Rightarrow> unit outcome" where
  "brelse t b s =
     (if \<not> holdingsleep t b s then Panic ''brelse'' s
      else
        (let id' = HASH (blockno (mem s b));
             s1 = releasesleep b s
         in case acquire t (bcache_lock id') s1 of
              None \<Rightarrow> Spin s1
            | Some s2 \<Rightarrow>
                (let s3 = upd b (\<lambda>x. x\<lparr>refcnt := refcnt x - 1\<rparr>) s2
                 in case acquire t tickslock s3 of
                      None \<Rightarrow> Spin s3
                    | Some s4 \<Rightarrow>
                        (let s5 = upd b (\<lambda>x. x\<lparr>timestamp := ticks s4\<rparr>) s4;
                             s6 = release tickslock s5;
                             s7 = release (bcache_lock id') s6
                         in Return () s7))))"

definition bpin :: "nat \<Rightarrow> ptr \<Rightarrow> kstate \<Rightarrow> unit outcome" where
  "bpin t b s =
     (let id' = HASH (blockno (mem s b))
      in case acquire t (bcache_lock id') s of
           None \<Rightarrow> Spin s
         | Some s1 \<Rightarrow>
             (let s2 = upd b (\<lambda>x. x\<lparr>refcnt := refcnt x + 1\<rparr>) s1;
                  s3 = release (bcache_lock id') s2
              in Return () s3))"

definition bunpin :: "nat \<Rightarrow> ptr \<Rightarrow> kstate \<Rightarrow> unit outcome" where
  "bunpin t b s =
     (let id' = HASH (blockno (mem s b))
      in case acquire t (bcache_lock id') s of
           None \<Rightarrow> Spin s
         | Some s1 \<Rightarrow>
             (let s2 = upd b (\<lambda>x. x\<lparr>refcnt := refcnt x - 1\<rparr>) s1;
                  s3 = release (bcache_lock id') s2
              in Return () s3))"

subsection \<open>The lists in the store\<close>

text \<open>
  A doubly-linked path in the store: following \<^verbatim>\<open>next\<close> from \<open>p\<close> goes through the
  nodes \<open>xs\<close> in this order and then reaches \<open>q\<close>, and \<^verbatim>\<open>prev\<close> of each node reached is
  the node before it.
\<close>

fun dpath :: "(ptr \<Rightarrow> buf) \<Rightarrow> ptr \<Rightarrow> ptr list \<Rightarrow> ptr \<Rightarrow> bool" where
  "dpath m p [] q = (next (m p) = q \<and> prev (m q) = p)"
| "dpath m p (x # xs) q = (next (m p) = x \<and> prev (m x) = p \<and> dpath m x xs q)"

text \<open>
  One step of the inner loop of the scan, on the candidate \<open>b\<close> and the node \<open>tmp\<close>
  (line 103).
\<close>

definition pick :: "(ptr \<Rightarrow> buf) \<Rightarrow> ptr \<Rightarrow> ptr \<Rightarrow> ptr" where
  "pick m b tmp =
     (if refcnt (m tmp) = 0 \<and> (b = Null \<or> timestamp (m tmp) < timestamp (m b)) then tmp else b)"

text \<open>
  The list of bucket \<open>i\<close> is \<open>xs\<close>: from the head \<^verbatim>\<open>table[i]\<close> the links go through the
  buffers \<open>xs\<close>, in this order, and back to the head.
\<close>

definition bucket :: "kstate \<Rightarrow> nat \<Rightarrow> nat list \<Rightarrow> bool" where
  "bucket s i xs = dpath (mem s) (Table i) (map Buf xs) (Table i)"

text \<open>
  The candidate that the inner loop of the scan leaves after a list \<open>xs\<close> of buffers,
  starting from no candidate.
\<close>

definition candidate :: "kstate \<Rightarrow> nat list \<Rightarrow> ptr" where
  "candidate s xs = foldl (pick (mem s)) Null (map Buf xs)"

text \<open>
  The scan goes past bucket \<open>i\<close>: it is another bucket than the home bucket \<open>id'\<close> and
  its lock is held, or none of its buffers has reference count 0.
\<close>

definition passes :: "kstate \<Rightarrow> (nat \<Rightarrow> nat list) \<Rightarrow> nat \<Rightarrow> nat \<Rightarrow> bool" where
  "passes s ls id' i =
     ((i \<noteq> id' \<and> holding (bcache_lock i) s) \<or> (\<forall>j \<in> set (ls i). refcnt (mem s (Buf j)) \<noteq> 0))"

text \<open>
  The cache is well formed, with the lists \<open>ls\<close>: \<open>ls i\<close> is the list of bucket \<open>i\<close>, and
  each of the \<open>n\<close> buffers of the pool is in exactly one of the lists, once.
\<close>

definition cache_inv :: "nat \<Rightarrow> kstate \<Rightarrow> (nat \<Rightarrow> nat list) \<Rightarrow> bool" where
  "cache_inv n s ls =
     ((\<forall>i<NBUCKET. bucket s i (ls i) \<and> distinct (ls i)) \<and>
      (\<forall>i<NBUCKET. \<forall>k<NBUCKET. i \<noteq> k \<longrightarrow> set (ls i) \<inter> set (ls k) = {}) \<and>
      (\<Union>i<NBUCKET. set (ls i)) = {..<n})"

text \<open>
  Every buffer is in the list of the bucket its block number hashes to.
\<close>

definition placed :: "kstate \<Rightarrow> (nat \<Rightarrow> nat list) \<Rightarrow> bool" where
  "placed s ls = (\<forall>i<NBUCKET. \<forall>j \<in> set (ls i). HASH (blockno (mem s (Buf j))) = i)"

text \<open>
  The lists after buffer \<open>j\<close> has gone from bucket \<open>i\<close> to the front of bucket \<open>id'\<close>.
\<close>

definition move :: "nat \<Rightarrow> nat \<Rightarrow> nat \<Rightarrow> (nat \<Rightarrow> nat list) \<Rightarrow> (nat \<Rightarrow> nat list)" where
  "move j i id' ls = (if i = id' then ls else ls(i := remove1 j (ls i), id' := j # ls id'))"

text \<open>
  Lines 107 to 117 on the store alone: \<open>b\<close> leaves its list and goes to the front of
  bucket \<open>id'\<close>, when it was found in another bucket \<open>i\<close>.
\<close>

definition relocate :: "nat \<Rightarrow> nat \<Rightarrow> ptr \<Rightarrow> kstate \<Rightarrow> kstate" where
  "relocate i id' b s = (if i \<noteq> id' then push_front id' b (unlink b s) else s)"

text \<open>
  Lines 118 to 121: the new identity of a recycled buffer.
\<close>

definition renew :: "uint \<Rightarrow> uint \<Rightarrow> buf \<Rightarrow> buf" where
  "renew dv bn x = x\<lparr>dev := dv, blockno := bn, valid := False, refcnt := 1\<rparr>"

text \<open>
  What \<open>recycle\<close> comes to, for the caller \<open>t\<close> that holds the lock of the home
  bucket \<open>id'\<close> (and of bucket \<open>i\<close>), in terms of the state \<open>s\<close> before \<^verbatim>\<open>bget\<close> took any
  lock: the caller waits for \<^verbatim>\<open>tickslock\<close>, or sleeps on the sleeplock of \<open>b\<close>, or returns.
\<close>

definition commit :: "nat \<Rightarrow> uint \<Rightarrow> uint \<Rightarrow> nat \<Rightarrow> nat \<Rightarrow> ptr \<Rightarrow> kstate \<Rightarrow> ptr outcome" where
  "commit t dv bn id' i b s =
     (if spin s tickslock \<noteq> None
      then Spin ((upd b (renew dv bn) (relocate i id' b s))\<lparr>spin := (spin s)(bcache_lock id' := Some t)\<rparr>)
      else if lock (mem s b) \<noteq> None
      then Sleep (upd b (\<lambda>x. (renew dv bn x)\<lparr>timestamp := ticks s\<rparr>) (relocate i id' b s))
      else Return b (upd b (\<lambda>x. (renew dv bn x)\<lparr>timestamp := ticks s, lock := Some t\<rparr>) (relocate i id' b s)))"

text \<open>
  Buffer \<open>j\<close> holds block \<open>bn\<close> of device \<open>dv\<close> (the test of line 78).
\<close>

definition hit :: "kstate \<Rightarrow> uint \<Rightarrow> uint \<Rightarrow> nat \<Rightarrow> bool" where
  "hit s dv bn = (\<lambda>j. dev (mem s (Buf j)) = dv \<and> blockno (mem s (Buf j)) = bn)"

subsection \<open>An example cache\<close>

text \<open>
  A small cache for the examples: two buffers; \<open>Buf 0\<close> alone in bucket 0, holding
  block 13 of device 1, last released at tick 5; \<open>Buf 1\<close> alone in bucket 1, holding
  block 1 of device 1, last released at tick 1; the other buckets are empty. The
  reference counts are \<open>r0\<close> and \<open>r1\<close>, \<open>Buf 0\<close> has the sleeplock \<open>lk\<close>, the
  spinlocks are free and \<open>ticks\<close> is 9.
\<close>

definition ex_mem :: "uint \<Rightarrow> uint \<Rightarrow> sleeplock \<Rightarrow> ptr \<Rightarrow> buf" where
  "ex_mem r0 r1 lk p =
     (if p = Buf 0 then
        \<lparr>valid = True, dev = 1, blockno = 13, lock = lk, refcnt = r0,
         prev = Table 0, next = Table 0, data = [7], timestamp = 5\<rparr>
      else if p = Buf 1 then
        \<lparr>valid = True, dev = 1, blockno = 1, lock = None, refcnt = r1,
         prev = Table 1, next = Table 1, data = [8], timestamp = 1\<rparr>
      else if p = Table 0 then
        \<lparr>valid = False, dev = 0, blockno = 0, lock = None, refcnt = 0,
         prev = Buf 0, next = Buf 0, data = [], timestamp = 0\<rparr>
      else if p = Table 1 then
        \<lparr>valid = False, dev = 0, blockno = 0, lock = None, refcnt = 0,
         prev = Buf 1, next = Buf 1, data = [], timestamp = 0\<rparr>
      else
        \<lparr>valid = False, dev = 0, blockno = 0, lock = None, refcnt = 0,
         prev = p, next = p, data = [], timestamp = 0\<rparr>)"

text \<open>
  The example cache as a kernel state.
\<close>

definition ex :: "uint \<Rightarrow> uint \<Rightarrow> sleeplock \<Rightarrow> kstate" where
  "ex r0 r1 lk = \<lparr>mem = ex_mem r0 r1 lk, spin = (\<lambda>_. None), ticks = 9, disk = (\<lambda>_. []), io = []\<rparr>"

text \<open>
  The lists of the example cache.
\<close>

definition ex_ls :: "nat \<Rightarrow> nat list" where
  "ex_ls i = (if i = 0 then [0] else if i = 1 then [1] else [])"

text \<open>
  A second example: three buffers, all idle and all in bucket 0, stamped at ticks 5, 3
  and 4 in list order.
\<close>

definition ex3_mem :: "ptr \<Rightarrow> buf" where
  "ex3_mem p =
     (if p = Buf 0 then
        \<lparr>valid = True, dev = 1, blockno = 13, lock = None, refcnt = 0,
         prev = Table 0, next = Buf 1, data = [], timestamp = 5\<rparr>
      else if p = Buf 1 then
        \<lparr>valid = True, dev = 1, blockno = 26, lock = None, refcnt = 0,
         prev = Buf 0, next = Buf 2, data = [], timestamp = 3\<rparr>
      else if p = Buf 2 then
        \<lparr>valid = True, dev = 1, blockno = 39, lock = None, refcnt = 0,
         prev = Buf 1, next = Table 0, data = [], timestamp = 4\<rparr>
      else if p = Table 0 then
        \<lparr>valid = False, dev = 0, blockno = 0, lock = None, refcnt = 0,
         prev = Buf 2, next = Buf 0, data = [], timestamp = 0\<rparr>
      else
        \<lparr>valid = False, dev = 0, blockno = 0, lock = None, refcnt = 0,
         prev = p, next = p, data = [], timestamp = 0\<rparr>)"

text \<open>
  The three-buffer example as a kernel state.
\<close>

definition ex3 :: kstate where
  "ex3 = \<lparr>mem = ex3_mem, spin = (\<lambda>_. None), ticks = 9, disk = (\<lambda>_. []), io = []\<rparr>"

text \<open>
  The lists of the three-buffer example.
\<close>

definition ex3_ls :: "nat \<Rightarrow> nat list" where
  "ex3_ls i = (if i = 0 then [0, 1, 2] else [])"

subsection \<open>Sequences of calls\<close>

text \<open>
  The calls of the interface of bio.c, by a thread, on buffer \<open>j\<close> of the pool where the
  call takes a buffer.
\<close>

datatype call =
    Bread nat uint uint
  | Bwrite nat nat
  | Brelse nat nat
  | Bpin nat nat
  | Bunpin nat nat

text \<open>
  The state in which a call has returned; \<open>None\<close> when it does not return (it panics,
  waits or sleeps).
\<close>

fun completes :: "'a outcome \<Rightarrow> kstate option" where
  "completes (Return x s) = Some s"
| "completes (Panic msg s) = None"
| "completes (Spin s) = None"
| "completes (Sleep s) = None"

text \<open>
  The state after a call that completes, in a pool of \<open>n\<close> buffers; \<open>None\<close> when the
  call does not complete or when \<open>j\<close> is no buffer of the pool.
\<close>

fun step :: "nat \<Rightarrow> call \<Rightarrow> kstate \<Rightarrow> kstate option" where
  "step n (Bread t dv bn) s = Option.bind (bread t dv bn s) completes"
| "step n (Bwrite t j) s = (if j < n then completes (bwrite t (Buf j) s) else None)"
| "step n (Brelse t j) s = (if j < n then completes (brelse t (Buf j) s) else None)"
| "step n (Bpin t j) s = (if j < n then completes (bpin t (Buf j) s) else None)"
| "step n (Bunpin t j) s = (if j < n then completes (bunpin t (Buf j) s) else None)"

text \<open>
  A sequence of calls, each one completing before the next one starts.
\<close>

fun run :: "nat \<Rightarrow> call list \<Rightarrow> kstate \<Rightarrow> kstate option" where
  "run n [] s = Some s"
| "run n (c # cs) s = Option.bind (step n c s) (run n cs)"

text \<open>
  The lists after \<^verbatim>\<open>binit\<close> for \<open>n\<close> buffers: each buffer was put at the front of
  bucket 0 in turn.
\<close>

definition init_ls :: "nat \<Rightarrow> nat \<Rightarrow> nat list" where
  "init_ls n i = (if i = 0 then rev [0..<n] else [])"

text \<open>
  The cache is well formed and every buffer is in the bucket of its block number.
\<close>

definition cache_ok :: "nat \<Rightarrow> kstate \<Rightarrow> bool" where
  "cache_ok n s = (\<exists>ls. cache_inv n s ls \<and> placed s ls)"

text \<open>
  Buffer \<open>j\<close> is in the list of bucket \<open>i\<close>.
\<close>

definition in_bucket :: "kstate \<Rightarrow> nat \<Rightarrow> nat \<Rightarrow> bool" where
  "in_bucket s i j = (\<exists>xs. bucket s i xs \<and> j \<in> set xs)"

text \<open>
  The kernel state before \<^verbatim>\<open>binit\<close>: \<^verbatim>\<open>bcache\<close> is a global without initialiser, so C
  sets it to zero; no lock is held and nothing has been asked of the disk.
\<close>

definition boot :: kstate where
  "boot =
     \<lparr>mem = (\<lambda>_. \<lparr>valid = False, dev = 0, blockno = 0, lock = None, refcnt = 0,
                    prev = Null, next = Null, data = [], timestamp = 0\<rparr>),
      spin = (\<lambda>_. None), ticks = 0, disk = (\<lambda>_. []), io = []\<rparr>"

text \<open>
  Modelled from the spec: the tick source (the timer interrupt of \<^verbatim>\<open>trap.c\<close>, which is not
  among the sources) advances the counter \<^verbatim>\<open>ticks\<close>; here by one tick.
\<close>

definition tick :: "kstate \<Rightarrow> kstate" where
  "tick s = s\<lparr>ticks := ticks s + 1\<rparr>"

section \<open>Properties\<close>

subsection \<open>Store updates and doubly-linked paths\<close>

lemma mem_upd: "mem (upd p f s) = (mem s)(p := f (mem s p))"
  by (simp add: upd_def)

lemma spin_upd: "spin (upd p f s) = spin s"
  by (simp add: upd_def)

lemma ticks_upd: "ticks (upd p f s) = ticks s"
  by (simp add: upd_def)

lemma disk_upd: "disk (upd p f s) = disk s"
  by (simp add: upd_def)

lemma io_upd: "io (upd p f s) = io s"
  by (simp add: upd_def)

lemmas upd_simps = mem_upd spin_upd ticks_upd disk_upd io_upd

lemma release_simps:
  "mem (release lk s) = mem s"
  "spin (release lk s) = (spin s)(lk := None)"
  "ticks (release lk s) = ticks s"
  "disk (release lk s) = disk s"
  "io (release lk s) = io s"
  by (simp_all add: release_def)

lemma dpath_append:
  "dpath m p (xs @ y # ys) q = (dpath m p xs y \<and> dpath m y ys q)"
  by (induction xs arbitrary: p) auto

lemma dpath_frame:
  "\<forall>x \<in> set (p # xs). next (m' x) = next (m x) \<Longrightarrow>
   \<forall>x \<in> set (xs @ [q]). prev (m' x) = prev (m x) \<Longrightarrow>
   dpath m' p xs q = dpath m p xs q"
  by (induction xs arbitrary: p) auto

lemma dpath_snoc:
  "dpath m p (xs @ [y]) q = (dpath m p xs y \<and> next (m y) = q \<and> prev (m q) = y)"
  by (simp add: dpath_append)

lemma dpath_next: "dpath m b ys q \<Longrightarrow> next (m b) = hd (ys @ [q])"
  by (cases ys) auto

lemma dpath_prev: "dpath m p xs b \<Longrightarrow> prev (m b) = last (p # xs)"
  by (induction xs arbitrary: p) auto

lemma dpath_unlink:
  assumes "dpath (mem s) p (xs @ b # ys) q"
    and "distinct (xs @ b # ys)" and "p \<notin> set (xs @ b # ys)" and "q \<notin> set (xs @ b # ys)"
  shows "dpath (mem (unlink b s)) p (xs @ ys) q"
proof -
  from assms(1) have A: "dpath (mem s) p xs b" and B: "dpath (mem s) b ys q"
    by (simp_all add: dpath_append)
  define u where "u = last (p # xs)"
  define z where "z = hd (ys @ [q])"
  have u: "prev (mem s b) = u" and z: "next (mem s b) = z"
    using A B by (simp_all add: dpath_prev dpath_next u_def z_def)
  have bu: "b \<noteq> u" using assms(2,3) by (cases xs rule: rev_cases) (auto simp: u_def)
  have bz: "b \<noteq> z" using assms(2,4) by (cases ys) (auto simp: z_def)
  have m': "mem (unlink b s) =
      ((mem s)(z := (mem s z)\<lparr>prev := u\<rparr>))(u := (((mem s)(z := (mem s z)\<lparr>prev := u\<rparr>)) u)\<lparr>next := z\<rparr>)"
    using bu bz by (simp add: unlink_def Let_def upd_simps u z)
  show ?thesis
  proof (cases xs rule: rev_cases)
    case Nil
    note xs = Nil
    show ?thesis
    proof (cases ys)
      case Nil
      with xs show ?thesis
        by (simp add: m' u_def z_def)
    next
      case (Cons y zs)
      have "dpath (mem (unlink b s)) y zs q = dpath (mem s) y zs q"
        using xs Cons assms(2-4)
        by (intro dpath_frame) (auto simp: m' u_def z_def)
      with xs Cons B assms(2-4) show ?thesis
        by (auto simp: m' u_def z_def)
    qed
  next
    case (snoc us v)
    note xs = snoc
    have F: "dpath (mem (unlink b s)) p us v = dpath (mem s) p us v"
      using xs assms(2-4)
      by (intro dpath_frame) (cases ys; auto simp: m' u_def z_def)+
    show ?thesis
    proof (cases ys)
      case Nil
      with xs A F assms(2-4) show ?thesis
        by (auto simp: m' u_def z_def dpath_snoc)
    next
      case (Cons y zs)
      have "dpath (mem (unlink b s)) y zs q = dpath (mem s) y zs q"
        using xs Cons assms(2-4)
        by (intro dpath_frame) (auto simp: m' u_def z_def)
      with xs Cons A B F assms(2-4) show ?thesis
        by (auto simp: m' u_def z_def dpath_snoc dpath_append)
    qed
  qed
qed

lemma unlink_mem:
  "mem (unlink b s) =
     (let u = prev (mem s b); z = next (mem s b);
          m1 = (mem s)(z := (mem s z)\<lparr>prev := u\<rparr>)
      in m1(u := (m1 u)\<lparr>next := z\<rparr>))"
  by (simp add: unlink_def Let_def upd_simps)

lemma unlink_fields:
  "valid (mem (unlink b s) x) = valid (mem s x)"
  "dev (mem (unlink b s) x) = dev (mem s x)"
  "blockno (mem (unlink b s) x) = blockno (mem s x)"
  "lock (mem (unlink b s) x) = lock (mem s x)"
  "refcnt (mem (unlink b s) x) = refcnt (mem s x)"
  "data (mem (unlink b s) x) = data (mem s x)"
  "timestamp (mem (unlink b s) x) = timestamp (mem s x)"
  by (simp_all add: unlink_mem Let_def)

lemma unlink_rest:
  "spin (unlink b s) = spin s" "ticks (unlink b s) = ticks s"
  "disk (unlink b s) = disk s" "io (unlink b s) = io s"
  by (simp_all add: unlink_def Let_def upd_simps)

lemma unlink_other:
  "x \<noteq> prev (mem s b) \<Longrightarrow> x \<noteq> next (mem s b) \<Longrightarrow> mem (unlink b s) x = mem s x"
  by (simp add: unlink_mem Let_def)

lemma push_front_mem:
  "mem (push_front i b s) =
     (let z = next (mem s (Table i));
          m1 = (mem s)(b := (mem s b)\<lparr>next := z, prev := Table i\<rparr>);
          m2 = m1(next (m1 (Table i)) := (m1 (next (m1 (Table i))))\<lparr>prev := b\<rparr>)
      in m2(Table i := (m2 (Table i))\<lparr>next := b\<rparr>))"
  by (simp add: push_front_def Let_def upd_simps)

lemma push_front_fields:
  "valid (mem (push_front i b s) x) = valid (mem s x)"
  "dev (mem (push_front i b s) x) = dev (mem s x)"
  "blockno (mem (push_front i b s) x) = blockno (mem s x)"
  "lock (mem (push_front i b s) x) = lock (mem s x)"
  "refcnt (mem (push_front i b s) x) = refcnt (mem s x)"
  "data (mem (push_front i b s) x) = data (mem s x)"
  "timestamp (mem (push_front i b s) x) = timestamp (mem s x)"
  by (simp_all add: push_front_mem Let_def)

lemma push_front_rest:
  "spin (push_front i b s) = spin s" "ticks (push_front i b s) = ticks s"
  "disk (push_front i b s) = disk s" "io (push_front i b s) = io s"
  by (simp_all add: push_front_def Let_def upd_simps)

lemma push_front_other:
  "b \<noteq> Table i \<Longrightarrow> x \<noteq> b \<Longrightarrow> x \<noteq> Table i \<Longrightarrow> x \<noteq> next (mem s (Table i)) \<Longrightarrow>
   mem (push_front i b s) x = mem s x"
  by (simp add: push_front_mem Let_def)

lemma dpath_push_front:
  assumes "dpath (mem s) (Table i) xs (Table i)"
    and "b \<notin> set xs" and "b \<noteq> Table i" and "Table i \<notin> set xs" and "distinct xs"
  shows "dpath (mem (push_front i b s)) (Table i) (b # xs) (Table i)"
proof (cases xs)
  case Nil
  with assms show ?thesis
    by (simp add: push_front_mem Let_def)
next
  case (Cons y ys)
  have "dpath (mem (push_front i b s)) y ys (Table i) = dpath (mem s) y ys (Table i)"
    using Cons assms
    by (intro dpath_frame) (auto simp: push_front_mem Let_def)
  with Cons assms show ?thesis
    by (auto simp: push_front_mem Let_def)
qed

lemma cached_dpath:
  "dpath m p xs q \<Longrightarrow> q \<notin> set xs \<Longrightarrow>
   cached m dv bn q (next (m p)) = Some (find (\<lambda>x. dev (m x) = dv \<and> blockno (m x) = bn) xs)"
proof (induction xs arbitrary: p)
  case Nil
  then show ?case by (simp add: cached.simps)
next
  case (Cons x xs)
  from Cons.prems have "next (m p) = x" "x \<noteq> q" "dpath m x xs q" "q \<notin> set xs" by auto
  with Cons.IH [of x] show ?case
    by (subst cached.simps) simp
qed

lemma lru_step:
  "x \<noteq> q \<Longrightarrow> lru m q x b = lru m q (next (m x)) (pick m b x)"
  by (subst lru.simps) (simp add: pick_def)

lemma lru_dpath:
  "dpath m p xs q \<Longrightarrow> q \<notin> set xs \<Longrightarrow> lru m q (next (m p)) b = Some (foldl (pick m) b xs)"
proof (induction xs arbitrary: p b)
  case Nil
  then show ?case by (simp add: lru.simps)
next
  case (Cons x xs)
  from Cons.prems have "next (m p) = x" "x \<noteq> q" "dpath m x xs q" "q \<notin> set xs" by auto
  with Cons.IH [of x] show ?case
    by (simp add: lru_step)
qed

lemma pick_fold_in:
  "foldl (pick m) a xs \<in> insert a {x \<in> set xs. refcnt (m x) = 0}"
  by (induction xs rule: rev_induct) (auto simp: pick_def)

lemma pick_fold_Null:
  "Null \<notin> set xs \<Longrightarrow>
   (foldl (pick m) Null xs = Null) = (\<forall>x \<in> set xs. refcnt (m x) \<noteq> 0)"
proof (induction xs rule: rev_induct)
  case Nil
  then show ?case by simp
next
  case (snoc x xs)
  then show ?case by (auto simp: pick_def)
qed

lemma pick_fold_stay:
  "\<forall>z \<in> set zs. refcnt (m z) = 0 \<longrightarrow> timestamp (m b) \<le> timestamp (m z) \<Longrightarrow> b \<noteq> Null \<Longrightarrow>
   foldl (pick m) b zs = b"
  by (induction zs) (auto simp: pick_def)

lemma pick_fold_lru:
  assumes "refcnt (m b) = 0" and "b \<noteq> Null"
    and "\<forall>y \<in> set ys. refcnt (m y) = 0 \<longrightarrow> timestamp (m b) < timestamp (m y)"
    and "\<forall>z \<in> set zs. refcnt (m z) = 0 \<longrightarrow> timestamp (m b) \<le> timestamp (m z)"
  shows "foldl (pick m) Null (ys @ b # zs) = b"
proof -
  have "foldl (pick m) Null ys \<in> insert Null {x \<in> set ys. refcnt (m x) = 0}"
    by (rule pick_fold_in)
  with assms(1,3) have "pick m (foldl (pick m) Null ys) b = b"
    by (auto simp: pick_def)
  with assms(2,4) show ?thesis
    by (simp add: pick_fold_stay)
qed

lemma acquire_simps:
  "spin s lk = None \<Longrightarrow> acquire t lk s = Some (s\<lparr>spin := (spin s)(lk := Some t)\<rparr>)"
  "spin s lk \<noteq> None \<Longrightarrow> acquire t lk s = None"
  by (simp_all add: acquire_def)

lemma release_acquired:
  "spin s lk = None \<Longrightarrow> release lk (s\<lparr>spin := (spin s)(lk := Some t)\<rparr>) = s"
  by (simp add: release_def fun_upd_idem)

lemma lru_bucket:
  "bucket s i xs \<Longrightarrow> lru (mem s) (Table i) (next (mem s (Table i))) Null = Some (candidate s xs)"
  unfolding bucket_def candidate_def by (rule lru_dpath) auto

lemma scan_step:
  assumes "bucket s i xs" and "cycle \<noteq> NBUCKET"
  shows "scan t dv bn id' s i cycle Null =
     (if i \<noteq> id' \<and> holding (bcache_lock i) s
      then scan t dv bn id' s ((i + 1) mod NBUCKET) (cycle + 1) Null
      else if candidate s xs \<noteq> Null
      then Some (recycle t dv bn id' i (candidate s xs)
                   (if i \<noteq> id' then s\<lparr>spin := (spin s)(bcache_lock i := Some t)\<rparr> else s))
      else scan t dv bn id' s ((i + 1) mod NBUCKET) (cycle + 1) Null)"
proof -
  have L: "lru (mem s) (Table i) (next (mem s (Table i))) Null = Some (candidate s xs)"
    using assms(1) by (rule lru_bucket)
  show ?thesis
  proof (cases "i \<noteq> id' \<and> holding (bcache_lock i) s")
    case True
    with assms(2) show ?thesis
      by (subst scan.simps) simp
  next
    case False
    show ?thesis
    proof (cases "i = id'")
      case True
      with assms(2) L show ?thesis
        by (subst scan.simps) simp
    next
      case False
      with \<open>\<not> (i \<noteq> id' \<and> holding (bcache_lock i) s)\<close>
      have free: "spin s (bcache_lock i) = None" by (simp add: holding_def)
      with False assms(2) L show ?thesis
        by (subst scan.simps) (simp add: holding_def acquire_simps release_acquired)
    qed
  qed
qed

lemma candidate_Null:
  "(candidate s xs = Null) = (\<forall>j \<in> set xs. refcnt (mem s (Buf j)) \<noteq> 0)"
  unfolding candidate_def by (subst pick_fold_Null) auto

lemma scan_passes:
  assumes B: "\<forall>i<NBUCKET. bucket s i (ls i)"
    and ck: "c \<le> k" and k: "k \<le> NBUCKET"
    and P: "\<forall>k'. c \<le> k' \<and> k' < k \<longrightarrow> passes s ls id' ((id' + k') mod NBUCKET)"
  shows "scan t dv bn id' s ((id' + c) mod NBUCKET) c Null =
         scan t dv bn id' s ((id' + k) mod NBUCKET) k Null"
  using ck k P
proof (induction k rule: dec_induct)
  case base
  show ?case ..
next
  case (step n)
  have n: "n \<noteq> NBUCKET" using step.prems(1) by simp
  have bk: "bucket s ((id' + n) mod NBUCKET) (ls ((id' + n) mod NBUCKET))"
    using B by (simp add: NBUCKET_def)
  have ps: "passes s ls id' ((id' + n) mod NBUCKET)"
    using step.prems(2) step.hyps(1) by simp
  have "scan t dv bn id' s ((id' + c) mod NBUCKET) c Null =
        scan t dv bn id' s ((id' + n) mod NBUCKET) n Null"
    using step by simp
  also have "\<dots> = scan t dv bn id' s (((id' + n) mod NBUCKET + 1) mod NBUCKET) (n + 1) Null"
    using ps by (subst scan_step [OF bk n]) (auto simp: passes_def candidate_Null)
  also have "((id' + n) mod NBUCKET + 1) mod NBUCKET = (id' + Suc n) mod NBUCKET"
    by (simp add: mod_Suc_eq)
  finally show ?case by simp
qed

lemma scan_panic:
  assumes "\<forall>i<NBUCKET. bucket s i (ls i)" and "id' < NBUCKET"
    and "\<forall>k<NBUCKET. passes s ls id' ((id' + k) mod NBUCKET)"
  shows "scan t dv bn id' s id' 0 Null = Some (Panic ''bget: no buffers'' s)"
proof -
  have "scan t dv bn id' s ((id' + 0) mod NBUCKET) 0 Null =
        scan t dv bn id' s ((id' + NBUCKET) mod NBUCKET) NBUCKET Null"
    using assms by (intro scan_passes [where ls = ls]) auto
  moreover have "scan t dv bn id' s ((id' + NBUCKET) mod NBUCKET) NBUCKET Null =
      Some (Panic ''bget: no buffers'' s)"
    by (subst scan.simps) simp
  ultimately show ?thesis using assms(2) by simp
qed

lemma scan_pick:
  assumes B: "\<forall>i<NBUCKET. bucket s i (ls i)" and "id' < NBUCKET" and k: "k < NBUCKET"
    and P: "\<forall>k'<k. passes s ls id' ((id' + k') mod NBUCKET)"
    and i: "i = (id' + k) mod NBUCKET"
    and N: "\<not> passes s ls id' i"
  shows "scan t dv bn id' s id' 0 Null =
     Some (recycle t dv bn id' i (candidate s (ls i))
             (if i \<noteq> id' then s\<lparr>spin := (spin s)(bcache_lock i := Some t)\<rparr> else s))"
proof -
  have "scan t dv bn id' s ((id' + 0) mod NBUCKET) 0 Null =
        scan t dv bn id' s ((id' + k) mod NBUCKET) k Null"
    using B k P by (intro scan_passes [where ls = ls]) auto
  moreover have bk: "bucket s i (ls i)" using B i by (simp add: NBUCKET_def)
  moreover have kn: "k \<noteq> NBUCKET" using k by simp
  moreover have "scan t dv bn id' s i k Null =
     Some (recycle t dv bn id' i (candidate s (ls i))
             (if i \<noteq> id' then s\<lparr>spin := (spin s)(bcache_lock i := Some t)\<rparr> else s))"
    using N by (subst scan_step [OF bk kn]) (auto simp: passes_def candidate_Null)
  ultimately show ?thesis
    using assms(2) i by simp
qed

subsection \<open>Buckets and the well-formed cache\<close>

lemma bucket_frame:
  "\<forall>x \<in> insert (Table i) (Buf ` set xs).
      next (mem s' x) = next (mem s x) \<and> prev (mem s' x) = prev (mem s x) \<Longrightarrow>
   bucket s' i xs = bucket s i xs"
  unfolding bucket_def by (rule dpath_frame) auto

lemma bucket_next: "bucket s i xs \<Longrightarrow> next (mem s (Table i)) \<in> insert (Table i) (Buf ` set xs)"
  unfolding bucket_def by (drule dpath_next) (cases xs; simp)

lemma inj_on_Buf: "inj_on Buf A"
  by (simp add: inj_on_def)

lemma bucket_unlink:
  assumes "bucket s i (xs @ j # ys)" and "distinct (xs @ j # ys)"
  shows "bucket (unlink (Buf j) s) i (xs @ ys)"
proof -
  have "dpath (mem (unlink (Buf j) s)) (Table i) (map Buf xs @ map Buf ys) (Table i)"
  proof (rule dpath_unlink)
    show "dpath (mem s) (Table i) (map Buf xs @ Buf j # map Buf ys) (Table i)"
      using assms(1) by (simp add: bucket_def)
    show "distinct (map Buf xs @ Buf j # map Buf ys)"
      using assms(2) by (auto simp: distinct_map inj_on_Buf)
  qed auto
  then show ?thesis by (simp add: bucket_def)
qed

lemma bucket_links:
  assumes "bucket s i (xs @ j # ys)"
  shows "prev (mem s (Buf j)) \<in> insert (Table i) (Buf ` set xs)"
    and "next (mem s (Buf j)) \<in> insert (Table i) (Buf ` set ys)"
proof -
  from assms have A: "dpath (mem s) (Table i) (map Buf xs) (Buf j)"
    and B: "dpath (mem s) (Buf j) (map Buf ys) (Table i)"
    by (simp_all add: bucket_def dpath_append)
  from A show "prev (mem s (Buf j)) \<in> insert (Table i) (Buf ` set xs)"
    by (cases xs rule: rev_cases) (auto dest: dpath_prev)
  from B show "next (mem s (Buf j)) \<in> insert (Table i) (Buf ` set ys)"
    by (cases ys) (auto dest: dpath_next)
qed

lemma bucket_unlink_other:
  assumes "bucket s i (xs @ j # ys)" and "k \<noteq> i"
    and "set zs \<inter> set (xs @ j # ys) = {}"
  shows "bucket (unlink (Buf j) s) k zs = bucket s k zs"
proof (rule bucket_frame, rule ballI)
  fix x assume x: "x \<in> insert (Table k) (Buf ` set zs)"
  from bucket_links [OF assms(1)] x assms(2,3)
  have "x \<noteq> prev (mem s (Buf j))" "x \<noteq> next (mem s (Buf j))" by auto
  then show "next (mem (unlink (Buf j) s) x) = next (mem s x) \<and>
             prev (mem (unlink (Buf j) s) x) = prev (mem s x)"
    by (simp add: unlink_other)
qed

lemma bucket_push_front:
  assumes "bucket s i xs" and "j \<notin> set xs" and "distinct xs"
  shows "bucket (push_front i (Buf j) s) i (j # xs)"
proof -
  have "dpath (mem (push_front i (Buf j) s)) (Table i) (Buf j # map Buf xs) (Table i)"
  proof (rule dpath_push_front)
    show "dpath (mem s) (Table i) (map Buf xs) (Table i)"
      using assms(1) by (simp add: bucket_def)
    show "distinct (map Buf xs)"
      using assms(3) by (simp add: distinct_map inj_on_Buf)
    show "Buf j \<notin> set (map Buf xs)" using assms(2) by auto
  qed auto
  then show ?thesis by (simp add: bucket_def)
qed

lemma bucket_push_front_other:
  assumes "bucket s i xs" and "k \<noteq> i" and "j \<notin> set zs" and "set zs \<inter> set xs = {}"
  shows "bucket (push_front i (Buf j) s) k zs = bucket s k zs"
proof (rule bucket_frame, rule ballI)
  fix x assume x: "x \<in> insert (Table k) (Buf ` set zs)"
  from bucket_next [OF assms(1)] x assms(2-4)
  have "x \<noteq> Buf j" "x \<noteq> Table i" "x \<noteq> next (mem s (Table i))" by auto
  then show "next (mem (push_front i (Buf j) s) x) = next (mem s x) \<and>
             prev (mem (push_front i (Buf j) s) x) = prev (mem s x)"
    by (simp add: push_front_other)
qed

lemma bucket_mem: "mem s' = mem s \<Longrightarrow> bucket s' i xs = bucket s i xs"
  by (simp add: bucket_def)

lemma relocate_inv:
  assumes inv: "cache_inv n s ls" and i: "i < NBUCKET" and h: "id' < NBUCKET"
    and ne: "i \<noteq> id'" and j: "j \<in> set (ls i)"
  shows "cache_inv n (push_front id' (Buf j) (release lk (unlink (Buf j) s))) (move j i id' ls)"
proof -
  from j obtain xs ys where sp: "ls i = xs @ j # ys" by (auto dest: split_list)
  from inv i have di: "distinct (ls i)" and bi: "bucket s i (ls i)" by (auto simp: cache_inv_def)
  from sp di have rm: "remove1 j (ls i) = xs @ ys" by (simp add: remove1_append)
  from inv have dj: "\<And>a b. a < NBUCKET \<Longrightarrow> b < NBUCKET \<Longrightarrow> a \<noteq> b \<Longrightarrow> set (ls a) \<inter> set (ls b) = {}"
    by (auto simp: cache_inv_def)
  let ?u = "release lk (unlink (Buf j) s)"
  have ui: "bucket ?u i (xs @ ys)"
    using bucket_unlink [of s i xs j ys] bi di sp by (simp add: bucket_def release_simps)
  have uk: "bucket ?u k (ls k)" if "k < NBUCKET" "k \<noteq> i" for k
  proof -
    have "bucket (unlink (Buf j) s) k (ls k) = bucket s k (ls k)"
      using bi sp that dj [of k i] i by (intro bucket_unlink_other [where i = i and xs = xs and ys = ys]) auto
    with inv that show ?thesis by (simp add: bucket_def release_simps cache_inv_def)
  qed
  have jh: "j \<notin> set (ls id')" using dj [of i id'] i h ne j by auto
  have dh: "distinct (ls id')" using inv h by (auto simp: cache_inv_def)
  let ?p = "push_front id' (Buf j) ?u"
  have ph: "bucket ?p id' (j # ls id')"
    using uk [of id'] h ne jh dh by (intro bucket_push_front) auto
  have pi: "bucket ?p i (xs @ ys)"
  proof -
    have "bucket ?p i (xs @ ys) = bucket ?u i (xs @ ys)"
      using uk [of id'] h ne di sp dj [of i id'] i
      by (intro bucket_push_front_other [where xs = "ls id'"]) auto
    with ui show ?thesis by simp
  qed
  have pk: "bucket ?p k (ls k)" if "k < NBUCKET" "k \<noteq> i" "k \<noteq> id'" for k
  proof -
    have "bucket ?p k (ls k) = bucket ?u k (ls k)"
      using uk [of id'] h ne that dj [of k id'] dj [of k i] i j
      by (intro bucket_push_front_other [where xs = "ls id'"]) auto
    with uk that show ?thesis by simp
  qed
  have B: "\<forall>k<NBUCKET. bucket ?p k (move j i id' ls k) \<and> distinct (move j i id' ls k)"
    using ph pi pk rm ne di dh jh inv sp by (auto simp: move_def cache_inv_def)
  have D: "\<forall>a<NBUCKET. \<forall>b<NBUCKET. a \<noteq> b \<longrightarrow> set (move j i id' ls a) \<inter> set (move j i id' ls b) = {}"
  proof (intro allI impI)
    fix a b assume ab: "a < NBUCKET" "b < NBUCKET" "a \<noteq> b"
    have s1: "set (xs @ ys) \<subseteq> set (ls i)" using sp by auto
    have s2: "j \<notin> set (xs @ ys)" using sp di by auto
    show "set (move j i id' ls a) \<inter> set (move j i id' ls b) = {}"
      using ab ne dj [of a b] dj [of a i] dj [of i b] dj [of a id'] dj [of id' b] dj [of i id'] dj[of id' i]
        i h s1 s2 j jh rm
      by (auto simp: move_def)
  qed
  have U: "(\<Union>k<NBUCKET. set (move j i id' ls k)) = {..<n}"
  proof -
    have "(\<Union>k<NBUCKET. set (move j i id' ls k)) = (\<Union>k<NBUCKET. set (ls k))"
    proof (intro equalityI subsetI)
      fix x assume "x \<in> (\<Union>k<NBUCKET. set (move j i id' ls k))"
      then obtain k where k: "k < NBUCKET" "x \<in> set (move j i id' ls k)" by auto
      then have "x \<in> set (ls k) \<or> (k = i \<and> x \<in> set (ls i)) \<or> (k = id' \<and> x = j)"
        using ne rm sp by (auto simp: move_def split: if_splits)
      with k i j show "x \<in> (\<Union>k<NBUCKET. set (ls k))" by auto
    next
      fix x assume "x \<in> (\<Union>k<NBUCKET. set (ls k))"
      then obtain k where k: "k < NBUCKET" "x \<in> set (ls k)" by auto
      show "x \<in> (\<Union>k<NBUCKET. set (move j i id' ls k))"
      proof (cases "x = j")
        case True
        then have "x \<in> set (move j i id' ls id')" using ne by (simp add: move_def)
        with h show ?thesis by auto
      next
        case False
        with k have "x \<in> set (move j i id' ls k)" using ne rm sp by (auto simp: move_def)
        with k show ?thesis by auto
      qed
    qed
    with inv show ?thesis by (simp add: cache_inv_def)
  qed
  from B D U show ?thesis by (simp add: cache_inv_def)
qed

subsection \<open>What recycling a buffer comes to\<close>

lemma push_front_spin:
  "push_front i b (s\<lparr>spin := f\<rparr>) = (push_front i b s)\<lparr>spin := f\<rparr>"
  by (simp add: push_front_def upd_def Let_def)

lemma unlink_spin:
  "unlink b (s\<lparr>spin := f\<rparr>) = (unlink b s)\<lparr>spin := f\<rparr>"
  by (simp add: unlink_def upd_def Let_def)

lemma upd_spin:
  "upd b g (s\<lparr>spin := f\<rparr>) = (upd b g s)\<lparr>spin := f\<rparr>"
  by (simp add: upd_def)

lemma relocate_spin:
  "relocate i id' b (s\<lparr>spin := f\<rparr>) = (relocate i id' b s)\<lparr>spin := f\<rparr>"
  by (simp add: relocate_def push_front_spin unlink_spin)

lemma relocate_rest:
  "spin (relocate i id' b s) = spin s" "ticks (relocate i id' b s) = ticks s"
  "disk (relocate i id' b s) = disk s" "io (relocate i id' b s) = io s"
  by (simp_all add: relocate_def push_front_rest unlink_rest)

lemma relocate_fields:
  "valid (mem (relocate i id' b s) x) = valid (mem s x)"
  "dev (mem (relocate i id' b s) x) = dev (mem s x)"
  "blockno (mem (relocate i id' b s) x) = blockno (mem s x)"
  "lock (mem (relocate i id' b s) x) = lock (mem s x)"
  "refcnt (mem (relocate i id' b s) x) = refcnt (mem s x)"
  "data (mem (relocate i id' b s) x) = data (mem s x)"
  "timestamp (mem (relocate i id' b s) x) = timestamp (mem s x)"
  by (simp_all add: relocate_def push_front_fields unlink_fields)

lemma upd_upd: "upd b f (upd b g s) = upd b (f \<circ> g) s"
  by (simp add: upd_def)

lemma set_spin_same: "spin s = f \<Longrightarrow> s\<lparr>spin := f\<rparr> = s"
  by auto

lemma recycle_eq:
  assumes h: "spin s (bcache_lock id') = None"
    and f: "i \<noteq> id' \<longrightarrow> spin s (bcache_lock i) = None"
    and s1: "s1 = (if i \<noteq> id'
                   then s\<lparr>spin := (spin s)(bcache_lock id' := Some t, bcache_lock i := Some t)\<rparr>
                   else s\<lparr>spin := (spin s)(bcache_lock id' := Some t)\<rparr>)"
  shows "recycle t dv bn id' i b s1 =
     (if spin s tickslock \<noteq> None
      then Spin ((upd b (renew dv bn) (relocate i id' b s))\<lparr>spin := (spin s)(bcache_lock id' := Some t)\<rparr>)
      else if lock (mem s b) \<noteq> None
      then Sleep (upd b (\<lambda>x. (renew dv bn x)\<lparr>timestamp := ticks s\<rparr>) (relocate i id' b s))
      else Return b (upd b (\<lambda>x. (renew dv bn x)\<lparr>timestamp := ticks s, lock := Some t\<rparr>) (relocate i id' b s)))"
proof -
  let ?r = "relocate i id' b s"
  let ?f = "(spin s)(bcache_lock id' := Some t)"
  have A: "(if i \<noteq> id' then push_front id' b (release (bcache_lock i) (unlink b s1)) else s1)
        = ?r\<lparr>spin := ?f\<rparr>"
  proof (cases "i = id'")
    case True
    then show ?thesis by (simp add: s1 relocate_def)
  next
    case False
    have "((spin s)(bcache_lock id' := Some t, bcache_lock i := Some t))(bcache_lock i := None) = ?f"
      using False f by (auto simp: fun_eq_iff)
    with False show ?thesis
      by (simp add: s1 relocate_def release_def unlink_spin push_front_spin unlink_rest)
  qed
  have B: "?f(tickslock := None, bcache_lock id' := None) = spin s" if "spin s tickslock = None"
    using h that by (auto simp: fun_eq_iff)
  show ?thesis
    unfolding recycle_def A
    by (auto simp: Let_def upd_spin upd_upd acquire_def release_def acquiresleep_def renew_def
        upd_simps relocate_rest relocate_fields B set_spin_same o_def)
qed

subsection \<open>The two paths of bget\<close>

lemma HASH_less: "HASH bn < NBUCKET"
  by (simp add: HASH_def NBUCKET_def unat_mod)

lemma find_map_Buf:
  "find P (map Buf xs) = map_option Buf (find (\<lambda>j. P (Buf j)) xs)"
  by (induction xs) auto

lemma cached_bucket:
  "bucket s i xs \<Longrightarrow>
   cached (mem s) dv bn (Table i) (next (mem s (Table i))) = Some (map_option Buf (find (hit s dv bn) xs))"
  unfolding bucket_def
  by (drule cached_dpath [where dv = dv and bn = bn]) (auto simp: find_map_Buf hit_def)

lemma bget_Spin:
  "spin s (bcache_lock (HASH bn)) \<noteq> None \<Longrightarrow> bget t dv bn s = Some (Spin s)"
  by (cases "spin s (bcache_lock (HASH bn))") (simp_all add: bget_def acquire_def Let_def)

lemma bget_cached_eq:
  assumes "bucket s (HASH bn) xs" and "spin s (bcache_lock (HASH bn)) = None"
    and "find (hit s dv bn) xs = Some j"
  shows "bget t dv bn s =
     Some (if lock (mem s (Buf j)) \<noteq> None
           then Sleep (upd (Buf j) (\<lambda>x. x\<lparr>refcnt := refcnt x + 1\<rparr>) s)
           else Return (Buf j) (upd (Buf j) (\<lambda>x. x\<lparr>refcnt := refcnt x + 1, lock := Some t\<rparr>) s))"
proof -
  let ?s1 = "s\<lparr>spin := (spin s)(bcache_lock (HASH bn) := Some t)\<rparr>"
  have "bucket ?s1 (HASH bn) xs" using assms(1) by (simp add: bucket_def)
  from cached_bucket [OF this, of dv bn] assms(3)
  have C: "cached (mem s) dv bn (Table (HASH bn)) (next (mem s (Table (HASH bn)))) = Some (Some (Buf j))"
    by (simp add: hit_def)
  have R: "((spin s)(bcache_lock (HASH bn) := Some t))(bcache_lock (HASH bn) := None) = spin s"
    using assms(2) by (auto simp: fun_eq_iff)
  show ?thesis
    using assms(2) C
    by (auto simp: bget_def acquire_def Let_def release_def acquiresleep_def upd_spin upd_simps
        upd_upd o_def R set_spin_same fun_upd_idem)
qed

lemma bget_miss_eq:
  assumes "bucket s (HASH bn) xs" and "spin s (bcache_lock (HASH bn)) = None"
    and "find (hit s dv bn) xs = None"
  shows "bget t dv bn s =
     scan t dv bn (HASH bn) (s\<lparr>spin := (spin s)(bcache_lock (HASH bn) := Some t)\<rparr>) (HASH bn) 0 Null"
proof -
  let ?s1 = "s\<lparr>spin := (spin s)(bcache_lock (HASH bn) := Some t)\<rparr>"
  have "bucket ?s1 (HASH bn) xs" using assms(1) by (simp add: bucket_def)
  from cached_bucket [OF this, of dv bn] assms(3)
  have C: "cached (mem s) dv bn (Table (HASH bn)) (next (mem s (Table (HASH bn)))) = Some None"
    by (simp add: hit_def)
  show ?thesis
    using assms(2) C by (simp add: bget_def acquire_def Let_def)
qed

lemma passes_home_taken:
  "passes (s\<lparr>spin := (spin s)(bcache_lock id' := Some t)\<rparr>) ls id' i = passes s ls id' i"
  by (auto simp: passes_def holding_def)

lemma candidate_home_taken:
  "candidate (s\<lparr>spin := f\<rparr>) xs = candidate s xs"
  by (simp add: candidate_def)

lemma candidate_cases:
  "candidate s xs = Null \<or> (\<exists>j \<in> set xs. candidate s xs = Buf j \<and> refcnt (mem s (Buf j)) = 0)"
  using pick_fold_in [of "mem s" Null "map Buf xs"] by (auto simp: candidate_def)

lemma bget_miss_panic:
  assumes inv: "cache_inv n s ls" and free: "spin s (bcache_lock (HASH bn)) = None"
    and miss: "find (hit s dv bn) (ls (HASH bn)) = None"
    and P: "\<forall>k<NBUCKET. passes s ls (HASH bn) ((HASH bn + k) mod NBUCKET)"
  shows "bget t dv bn s =
     Some (Panic ''bget: no buffers'' (s\<lparr>spin := (spin s)(bcache_lock (HASH bn) := Some t)\<rparr>))"
proof -
  let ?s1 = "s\<lparr>spin := (spin s)(bcache_lock (HASH bn) := Some t)\<rparr>"
  have B: "\<forall>i<NBUCKET. bucket ?s1 i (ls i)" using inv by (simp add: cache_inv_def bucket_def)
  have "bget t dv bn s = scan t dv bn (HASH bn) ?s1 (HASH bn) 0 Null"
    using inv free miss HASH_less [of bn] by (intro bget_miss_eq [where xs = "ls (HASH bn)"]) (auto simp: cache_inv_def)
  also have "\<dots> = Some (Panic ''bget: no buffers'' ?s1)"
    using B HASH_less P by (intro scan_panic [where ls = ls]) (auto simp: passes_home_taken)
  finally show ?thesis .
qed

lemma bget_miss_pick:
  assumes inv: "cache_inv n s ls" and free: "spin s (bcache_lock (HASH bn)) = None"
    and miss: "find (hit s dv bn) (ls (HASH bn)) = None"
    and k: "k < NBUCKET" and i: "i = (HASH bn + k) mod NBUCKET"
    and P: "\<forall>k'<k. passes s ls (HASH bn) ((HASH bn + k') mod NBUCKET)"
    and N: "\<not> passes s ls (HASH bn) i"
  shows "bget t dv bn s = Some (commit t dv bn (HASH bn) i (candidate s (ls i)) s)"
proof -
  let ?s1 = "s\<lparr>spin := (spin s)(bcache_lock (HASH bn) := Some t)\<rparr>"
  let ?s2 = "if i \<noteq> HASH bn then ?s1\<lparr>spin := (spin ?s1)(bcache_lock i := Some t)\<rparr> else ?s1"
  have B: "\<forall>i<NBUCKET. bucket ?s1 i (ls i)" using inv by (simp add: cache_inv_def bucket_def)
  have "bget t dv bn s = scan t dv bn (HASH bn) ?s1 (HASH bn) 0 Null"
    using inv free miss HASH_less [of bn] by (intro bget_miss_eq [where xs = "ls (HASH bn)"]) (auto simp: cache_inv_def)
  also have "\<dots> = Some (recycle t dv bn (HASH bn) i (candidate ?s1 (ls i)) ?s2)"
    using B HASH_less k P i N by (intro scan_pick [where ls = ls and k = k]) (auto simp: passes_home_taken)
  also have "recycle t dv bn (HASH bn) i (candidate ?s1 (ls i)) ?s2 =
      commit t dv bn (HASH bn) i (candidate s (ls i)) s"
    unfolding commit_def candidate_home_taken
    using free N by (intro recycle_eq) (auto simp: passes_def holding_def)
  finally show ?thesis .
qed

lemma first_not_passing:
  assumes "\<not> (\<forall>k<NBUCKET. passes s ls id' ((id' + k) mod NBUCKET))"
  obtains k where "k < NBUCKET" "\<not> passes s ls id' ((id' + k) mod NBUCKET)"
    "\<forall>k'<k. passes s ls id' ((id' + k') mod NBUCKET)"
proof -
  let ?Q = "\<lambda>k. k < NBUCKET \<and> \<not> passes s ls id' ((id' + k) mod NBUCKET)"
  from assms have ex: "\<exists>k. ?Q k" by auto
  have 1: "?Q (LEAST k. ?Q k)" using ex by (rule LeastI_ex)
  have 2: "\<forall>k'<(LEAST k. ?Q k). passes s ls id' ((id' + k') mod NBUCKET)"
  proof (intro allI impI)
    fix k' assume lt: "k' < (LEAST k. ?Q k)"
    then have "\<not> ?Q k'" by (rule not_less_Least)
    moreover have "k' < NBUCKET" using lt 1 by simp
    ultimately show "passes s ls id' ((id' + k') mod NBUCKET)" by simp
  qed
  from 1 2 that show thesis by blast
qed

subsection \<open>The invariant under updates\<close>

lemma cache_inv_links:
  assumes "\<And>x. next (mem s' x) = next (mem s x) \<and> prev (mem s' x) = prev (mem s x)"
  shows "cache_inv n s' ls = cache_inv n s ls"
proof -
  have "bucket s' i xs = bucket s i xs" for i xs
    by (rule bucket_frame) (simp add: assms)
  then show ?thesis by (simp add: cache_inv_def)
qed

lemma cache_inv_upd:
  "(\<And>x. next (f x) = next x \<and> prev (f x) = prev x) \<Longrightarrow> cache_inv n (upd p f s) ls = cache_inv n s ls"
  by (rule cache_inv_links) (simp add: upd_simps)

lemma cache_inv_spin: "cache_inv n (s\<lparr>spin := f\<rparr>) ls = cache_inv n s ls"
  by (rule cache_inv_links) simp

lemma relocate_inv2:
  assumes "cache_inv n s ls" and "i < NBUCKET" and "id' < NBUCKET" and "j \<in> set (ls i)"
  shows "cache_inv n (relocate i id' (Buf j) s) (move j i id' ls)"
proof (cases "i = id'")
  case True
  with assms show ?thesis by (simp add: relocate_def move_def)
next
  case False
  have "cache_inv n (push_front id' (Buf j) (release tickslock (unlink (Buf j) s))) (move j i id' ls)"
    using assms False by (intro relocate_inv) auto
  moreover have "cache_inv n (relocate i id' (Buf j) s) (move j i id' ls) =
    cache_inv n (push_front id' (Buf j) (release tickslock (unlink (Buf j) s))) (move j i id' ls)"
    using False by (intro cache_inv_links) (simp add: relocate_def push_front_mem release_simps Let_def)
  ultimately show ?thesis by simp
qed

lemma move_apply:
  "move j i id' ls k =
     (if i = id' then ls k
      else if k = id' then j # ls id'
      else if k = i then remove1 j (ls i) else ls k)"
  by (auto simp: move_def)

lemma move_set:
  "j \<in> set (ls i) \<Longrightarrow> distinct (ls i) \<Longrightarrow>
   set (move j i id' ls k) =
     (if i = id' then set (ls k)
      else if k = id' then insert j (set (ls k))
      else if k = i then set (ls k) - {j} else set (ls k))"
  by (auto simp: move_def)

lemma placed_commit:
  assumes inv: "cache_inv n s ls" and pl: "placed s ls" and i: "i < NBUCKET" and j: "j \<in> set (ls i)"
    and mo: "\<And>x. x \<noteq> Buf j \<Longrightarrow> blockno (mem s' x) = blockno (mem s x)"
    and mj: "blockno (mem s' (Buf j)) = bn"
  shows "placed s' (move j i (HASH bn) ls)"
proof -
  from inv i have d: "distinct (ls i)" by (simp add: cache_inv_def)
  note ms = move_set [where j = j and ls = ls and i = i, OF j d]
  show ?thesis
    unfolding placed_def
  proof (intro allI impI ballI)
    fix k x assume k: "k < NBUCKET" and x: "x \<in> set (move j i (HASH bn) ls k)"
    show "HASH (blockno (mem s' (Buf x))) = k"
    proof (cases "x = j")
      case True
      have only: "k = i" if "j \<in> set (ls k)"
      proof (rule ccontr)
        assume "k \<noteq> i"
        with inv i k have "set (ls k) \<inter> set (ls i) = {}" by (simp add: cache_inv_def)
        with that j show False by auto
      qed
      have hi: "HASH (blockno (mem s (Buf j))) = i" using pl i j by (simp add: placed_def)
      have "k = HASH bn"
      proof (cases "i = HASH bn")
        case True
        with x \<open>x = j\<close> have "j \<in> set (ls k)" by (simp add: move_def)
        with only True show ?thesis by simp
      next
        case False
        show ?thesis
        proof (rule ccontr)
          assume kh: "k \<noteq> HASH bn"
          with False x \<open>x = j\<close> have "j \<in> set (ls k) \<and> k \<noteq> i"
            by (simp add: ms split: if_splits)
          with only show False by simp
        qed
      qed
      with True mj show ?thesis by simp
    next
      case False
      with x have "x \<in> set (ls k)" by (simp add: ms split: if_splits)
      with pl k have "HASH (blockno (mem s (Buf x))) = k" by (simp add: placed_def)
      with False show ?thesis by (simp add: mo)
    qed
  qed
qed

subsection \<open>The cases of bget\<close>

lemma find_Some_split:
  "find P xs = Some j \<Longrightarrow> \<exists>ys zs. xs = ys @ j # zs \<and> P j \<and> (\<forall>y \<in> set ys. \<not> P y)"
proof (induction xs)
  case Nil
  then show ?case by simp
next
  case (Cons x xs)
  show ?case
  proof (cases "P x")
    case True
    with Cons.prems have "x = j" by simp
    with True have "x # xs = [] @ j # xs \<and> P j \<and> (\<forall>y \<in> set []. \<not> P y)" by simp
    then show ?thesis by blast
  next
    case False
    with Cons obtain ys zs where "xs = ys @ j # zs" "P j" "\<forall>y \<in> set ys. \<not> P y" by auto
    with False have "x # xs = (x # ys) @ j # zs \<and> P j \<and> (\<forall>y \<in> set (x # ys). \<not> P y)" by simp
    then show ?thesis by blast
  qed
qed

lemma find_split_Some:
  "P j \<Longrightarrow> \<forall>y \<in> set ys. \<not> P y \<Longrightarrow> find P (ys @ j # zs) = Some j"
  by (induction ys) auto

lemma commit_mem:
  "\<exists>g. (\<forall>x. next (g x) = next x \<and> prev (g x) = prev x \<and> blockno (g x) = bn \<and> dev (g x) = dv
           \<and> valid (g x) = False \<and> refcnt (g x) = 1 \<and> data (g x) = data x) \<and>
       mem (state_of (commit t dv bn id' i b s)) =
         (mem (relocate i id' b s))(b := g (mem (relocate i id' b s) b))"
proof (cases "spin s tickslock \<noteq> None")
  case True
  then show ?thesis
    by (intro exI [of _ "renew dv bn"]) (auto simp: commit_def renew_def upd_simps)
next
  case False
  note tl = False
  show ?thesis
  proof (cases "lock (mem s b) \<noteq> None")
    case True
    with tl show ?thesis
      by (intro exI [of _ "\<lambda>x. (renew dv bn x)\<lparr>timestamp := ticks s\<rparr>"])
         (auto simp: commit_def renew_def upd_simps)
  next
    case False
    with tl show ?thesis
      by (intro exI [of _ "\<lambda>x. (renew dv bn x)\<lparr>timestamp := ticks s, lock := Some t\<rparr>"])
         (auto simp: commit_def renew_def upd_simps)
  qed
qed

lemma commit_inv:
  assumes "cache_inv n s ls" and "i < NBUCKET" and "j \<in> set (ls i)"
  shows "cache_inv n (state_of (commit t dv bn (HASH bn) i (Buf j) s)) (move j i (HASH bn) ls)"
proof -
  from commit_mem [of bn dv t "HASH bn" i "Buf j" s] obtain g where
    g: "\<forall>x. next (g x) = next x \<and> prev (g x) = prev x" and
    m: "mem (state_of (commit t dv bn (HASH bn) i (Buf j) s)) =
         (mem (relocate i (HASH bn) (Buf j) s))(Buf j := g (mem (relocate i (HASH bn) (Buf j) s) (Buf j)))"
    by auto
  have "cache_inv n (state_of (commit t dv bn (HASH bn) i (Buf j) s)) (move j i (HASH bn) ls) =
        cache_inv n (relocate i (HASH bn) (Buf j) s) (move j i (HASH bn) ls)"
    by (rule cache_inv_links) (simp add: m g)
  with relocate_inv2 [OF assms(1,2) HASH_less assms(3)] show ?thesis by simp
qed

lemma commit_other:
  assumes "x \<noteq> b"
  shows "valid (mem (state_of (commit t dv bn id' i b s)) x) = valid (mem s x)"
    and "dev (mem (state_of (commit t dv bn id' i b s)) x) = dev (mem s x)"
    and "blockno (mem (state_of (commit t dv bn id' i b s)) x) = blockno (mem s x)"
    and "lock (mem (state_of (commit t dv bn id' i b s)) x) = lock (mem s x)"
    and "refcnt (mem (state_of (commit t dv bn id' i b s)) x) = refcnt (mem s x)"
    and "data (mem (state_of (commit t dv bn id' i b s)) x) = data (mem s x)"
    and "timestamp (mem (state_of (commit t dv bn id' i b s)) x) = timestamp (mem s x)"
  using assms by (simp_all add: commit_def upd_simps relocate_fields)

lemma commit_self:
  "dev (mem (state_of (commit t dv bn id' i b s)) b) = dv"
  "blockno (mem (state_of (commit t dv bn id' i b s)) b) = bn"
  "valid (mem (state_of (commit t dv bn id' i b s)) b) = False"
  "refcnt (mem (state_of (commit t dv bn id' i b s)) b) = 1"
  "data (mem (state_of (commit t dv bn id' i b s)) b) = data (mem s b)"
  by (simp_all add: commit_def upd_simps relocate_fields renew_def)

lemma commit_rest:
  "ticks (state_of (commit t dv bn id' i b s)) = ticks s"
  "disk (state_of (commit t dv bn id' i b s)) = disk s"
  "io (state_of (commit t dv bn id' i b s)) = io s"
  by (simp_all add: commit_def upd_simps relocate_rest)

lemma commit_placed:
  assumes "cache_inv n s ls" and "placed s ls" and "i < NBUCKET" and "j \<in> set (ls i)"
  shows "placed (state_of (commit t dv bn (HASH bn) i (Buf j) s)) (move j i (HASH bn) ls)"
  using assms by (rule placed_commit) (simp_all add: commit_other commit_self)

lemma commit_Return:
  assumes "commit t dv bn id' i b s = Return c s'"
  shows "c = b" and "spin s tickslock = None" and "lock (mem s b) = None"
    and "s' = upd b (\<lambda>x. (renew dv bn x)\<lparr>timestamp := ticks s, lock := Some t\<rparr>) (relocate i id' b s)"
  using assms by (auto simp: commit_def split: if_splits)

lemma bget_cases [consumes 1, case_names spin hit panic pick]:
  assumes inv: "cache_inv n s ls"
  obtains
    "spin s (bcache_lock (HASH bn)) \<noteq> None" "bget t dv bn s = Some (Spin s)"
  | xs j ys where "spin s (bcache_lock (HASH bn)) = None" "ls (HASH bn) = xs @ j # ys"
      "hit s dv bn j" "\<forall>x \<in> set xs. \<not> hit s dv bn x"
      "bget t dv bn s =
        Some (if lock (mem s (Buf j)) \<noteq> None
              then Sleep (upd (Buf j) (\<lambda>x. x\<lparr>refcnt := refcnt x + 1\<rparr>) s)
              else Return (Buf j) (upd (Buf j) (\<lambda>x. x\<lparr>refcnt := refcnt x + 1, lock := Some t\<rparr>) s))"
  | "spin s (bcache_lock (HASH bn)) = None" "\<forall>x \<in> set (ls (HASH bn)). \<not> hit s dv bn x"
      "\<forall>k<NBUCKET. passes s ls (HASH bn) ((HASH bn + k) mod NBUCKET)"
      "bget t dv bn s =
        Some (Panic ''bget: no buffers'' (s\<lparr>spin := (spin s)(bcache_lock (HASH bn) := Some t)\<rparr>))"
  | k i j where "spin s (bcache_lock (HASH bn)) = None" "\<forall>x \<in> set (ls (HASH bn)). \<not> hit s dv bn x"
      "k < NBUCKET" "i = (HASH bn + k) mod NBUCKET"
      "\<forall>k'<k. passes s ls (HASH bn) ((HASH bn + k') mod NBUCKET)"
      "\<not> passes s ls (HASH bn) i" "candidate s (ls i) = Buf j" "j \<in> set (ls i)"
      "refcnt (mem s (Buf j)) = 0"
      "bget t dv bn s = Some (commit t dv bn (HASH bn) i (Buf j) s)"
proof (cases "spin s (bcache_lock (HASH bn)) = None")
  case False
  with that(1) bget_Spin show thesis by blast
next
  case True
  note free = True
  from inv HASH_less [of bn] have bk: "bucket s (HASH bn) (ls (HASH bn))" by (simp add: cache_inv_def)
  show thesis
  proof (cases "find (hit s dv bn) (ls (HASH bn))")
    case (Some j)
    from find_Some_split [OF Some] obtain xs ys where
      "ls (HASH bn) = xs @ j # ys" "hit s dv bn j" "\<forall>x \<in> set xs. \<not> hit s dv bn x" by blast
    with that(2) free bget_cached_eq [OF bk free Some] show thesis by blast
  next
    case None
    then have miss: "\<forall>x \<in> set (ls (HASH bn)). \<not> hit s dv bn x" by (simp add: find_None_iff)
    show thesis
    proof (cases "\<forall>k<NBUCKET. passes s ls (HASH bn) ((HASH bn + k) mod NBUCKET)")
      case True
      with that(3) free miss bget_miss_panic [OF inv free None True] show thesis by blast
    next
      case False
      then obtain k where k: "k < NBUCKET" "\<not> passes s ls (HASH bn) ((HASH bn + k) mod NBUCKET)"
        "\<forall>k'<k. passes s ls (HASH bn) ((HASH bn + k') mod NBUCKET)"
        by (rule first_not_passing)
      define i where "i = (HASH bn + k) mod NBUCKET"
      from k(2) have "candidate s (ls i) \<noteq> Null"
        by (auto simp: passes_def candidate_Null i_def)
      with candidate_cases [of s "ls i"] obtain j where
        j: "j \<in> set (ls i)" "candidate s (ls i) = Buf j" "refcnt (mem s (Buf j)) = 0" by auto
      have "bget t dv bn s = Some (commit t dv bn (HASH bn) i (candidate s (ls i)) s)"
        using inv free None k(1) i_def k(3) k(2) [folded i_def] by (rule bget_miss_pick)
      with that(4) [of k i j] free miss k i_def j show thesis by simp
    qed
  qed
qed

lemma rot_mod:
  fixes h k m :: nat
  assumes "h < m" "k < m"
  shows "(h + k) mod m = (if h + k < m then h + k else h + k - m)"
  using assms by (simp add: mod_if)

lemma rot_unique:
  fixes h i m :: nat
  assumes "h < m" "i < m"
  shows "\<exists>!k. k < m \<and> (h + k) mod m = i"
proof (rule ex1I [of _ "if h \<le> i then i - h else i + m - h"])
  show "(if h \<le> i then i - h else i + m - h) < m \<and>
        (h + (if h \<le> i then i - h else i + m - h)) mod m = i"
    using assms by (auto simp: rot_mod)
next
  fix k assume k: "k < m \<and> (h + k) mod m = i"
  then have km: "k < m" and e: "(h + k) mod m = i" by simp_all
  from rot_mod [OF assms(1) km] e have "(if h + k < m then h + k else h + k - m) = i"
    by simp
  with km assms show "k = (if h \<le> i then i - h else i + m - h)"
    by (auto split: if_splits)
qed

subsection \<open>The example cache\<close>

lemma ex_inv: "cache_inv 2 (ex r0 r1 lk) ex_ls"
proof -
  have "(\<Union>i<NBUCKET. set (ex_ls i)) = {..<2}"
  proof (intro equalityI subsetI)
    fix x assume "x \<in> (\<Union>i<NBUCKET. set (ex_ls i))"
    then show "x \<in> {..<2}" by (auto simp: ex_ls_def split: if_splits)
  next
    fix x :: nat assume "x \<in> {..<2}"
    then have "x = 0 \<or> x = 1" by auto
    then have "x \<in> set (ex_ls x) \<and> x < NBUCKET" by (auto simp: ex_ls_def NBUCKET_def)
    then show "x \<in> (\<Union>i<NBUCKET. set (ex_ls i))" by blast
  qed
  then show ?thesis
    by (auto simp: cache_inv_def bucket_def ex_def ex_mem_def ex_ls_def)
qed

lemma ex_placed: "placed (ex r0 r1 lk) ex_ls"
  by (auto simp: placed_def ex_def ex_mem_def ex_ls_def HASH_def)

subsection \<open>The hit path\<close>

text \<open>
  Claim C5. A call of \<^verbatim>\<open>bget\<close> whose home bucket already holds a buffer with the
  device and block asked for (\<open>j\<close>, the first one in the list) gives that buffer: the
  call returns it with the sleeplock held, or sleeps on its sleeplock when another
  thread holds it. Its reference count has gone up by one; its device, block number,
  validity and timestamp are as before; every other buffer, every link, every list and
  every spinlock is as before, so nothing was evicted or given a new identity.
\<close>

theorem bget_hit:
  assumes "cache_inv n s ls"
    and "spin s (bcache_lock (HASH bn)) = None"
    and "ls (HASH bn) = xs @ j # ys"
    and "dev (mem s (Buf j)) = dv \<and> blockno (mem s (Buf j)) = bn"
    and "\<forall>x \<in> set xs. \<not> (dev (mem s (Buf x)) = dv \<and> blockno (mem s (Buf x)) = bn)"
  shows "\<exists>s'. bget t dv bn s =
            Some (if lock (mem s (Buf j)) = None then Return (Buf j) s' else Sleep s') \<and>
          refcnt (mem s' (Buf j)) = refcnt (mem s (Buf j)) + 1 \<and>
          dev (mem s' (Buf j)) = dv \<and> blockno (mem s' (Buf j)) = bn \<and>
          valid (mem s' (Buf j)) = valid (mem s (Buf j)) \<and>
          timestamp (mem s' (Buf j)) = timestamp (mem s (Buf j)) \<and>
          (lock (mem s (Buf j)) = None \<longrightarrow> lock (mem s' (Buf j)) = Some t) \<and>
          (\<forall>x. x \<noteq> Buf j \<longrightarrow> mem s' x = mem s x) \<and>
          (\<forall>x. next (mem s' x) = next (mem s x) \<and> prev (mem s' x) = prev (mem s x)) \<and>
          cache_inv n s' ls \<and> spin s' = spin s \<and> io s' = io s"
proof -
  from assms(1) HASH_less [of bn] have bk: "bucket s (HASH bn) (ls (HASH bn))"
    by (simp add: cache_inv_def)
  have f: "find (hit s dv bn) (ls (HASH bn)) = Some j"
    unfolding assms(3) using assms(4,5) by (intro find_split_Some) (simp_all add: hit_def)
  let ?g = "\<lambda>x. if lock (mem s (Buf j)) = None then x\<lparr>refcnt := refcnt x + 1, lock := Some t\<rparr>
                 else x\<lparr>refcnt := refcnt x + 1\<rparr>"
  let ?s = "upd (Buf j) ?g s"
  have 1: "bget t dv bn s = Some (if lock (mem s (Buf j)) = None then Return (Buf j) ?s else Sleep ?s)"
    by (cases "lock (mem s (Buf j))") (simp_all add: bget_cached_eq [OF bk assms(2) f])
  have 2: "cache_inv n ?s ls"
    using assms(1) by (subst cache_inv_upd) simp_all
  from 1 2 assms(4) show ?thesis
    by (intro exI [of _ ?s]) (simp add: upd_simps)
qed

text \<open>
  The hit on block 13 of device 1 in the example cache.
\<close>

theorem bget_hit_witness:
  "\<exists>s'. bget 7 1 13 (ex 0 0 None) = Some (Return (Buf 0) s') \<and>
        refcnt (mem s' (Buf 0)) = 1 \<and> lock (mem s' (Buf 0)) = Some 7 \<and>
        mem s' (Buf 1) = mem (ex 0 0 None) (Buf 1) \<and> cache_inv 2 s' ex_ls"
proof -
  have a: "ex_ls (HASH 13) = [] @ 0 # []" by (simp add: ex_ls_def HASH_def)
  have b: "spin (ex 0 0 None) (bcache_lock (HASH 13)) = None" by (simp add: ex_def)
  have c: "dev (mem (ex 0 0 None) (Buf 0)) = 1 \<and> blockno (mem (ex 0 0 None) (Buf 0)) = 13"
    by (simp add: ex_def ex_mem_def)
  have d: "\<forall>x \<in> set []. \<not> (dev (mem (ex 0 0 None) (Buf x)) = 1 \<and> blockno (mem (ex 0 0 None) (Buf x)) = 13)"
    by simp
  have e: "lock (mem (ex 0 0 None) (Buf 0)) = None" "refcnt (mem (ex 0 0 None) (Buf 0)) = 0"
    by (simp_all add: ex_def ex_mem_def)
  from bget_hit [OF ex_inv b a c d, of 7] e show ?thesis by auto
qed

subsection \<open>No buffer to recycle\<close>

text \<open>
  Claim C7. On a miss, when every bucket is passed (its lock is held and it is not the
  home bucket, or it has no buffer with reference count 0), \<^verbatim>\<open>bget\<close> panics with
  "bget: no buffers": it returns no value, it does not wait and it does not go round
  again. The thirteen steps \<open>k\<close> of the one pass visit the buckets \<open>(id + k) mod 13\<close>,
  that is, each bucket exactly once.
\<close>

theorem bget_no_buffers:
  assumes "cache_inv n s ls"
    and "spin s (bcache_lock (HASH bn)) = None"
    and "\<forall>x \<in> set (ls (HASH bn)). \<not> (dev (mem s (Buf x)) = dv \<and> blockno (mem s (Buf x)) = bn)"
    and "\<forall>i<NBUCKET. (i \<noteq> HASH bn \<and> holding (bcache_lock i) s) \<or>
                      (\<forall>j \<in> set (ls i). refcnt (mem s (Buf j)) \<noteq> 0)"
  shows "bget t dv bn s =
           Some (Panic ''bget: no buffers'' (s\<lparr>spin := (spin s)(bcache_lock (HASH bn) := Some t)\<rparr>)) \<and>
         (\<forall>i<NBUCKET. \<exists>!k. k < NBUCKET \<and> (HASH bn + k) mod NBUCKET = i)"
proof
  have miss: "find (hit s dv bn) (ls (HASH bn)) = None"
    using assms(3) by (simp add: find_None_iff hit_def)
  have "\<forall>k<NBUCKET. passes s ls (HASH bn) ((HASH bn + k) mod NBUCKET)"
    using assms(4) by (simp add: passes_def NBUCKET_def)
  with assms(1,2) miss
  show "bget t dv bn s =
      Some (Panic ''bget: no buffers'' (s\<lparr>spin := (spin s)(bcache_lock (HASH bn) := Some t)\<rparr>))"
    by (rule bget_miss_panic)
  show "\<forall>i<NBUCKET. \<exists>!k. k < NBUCKET \<and> (HASH bn + k) mod NBUCKET = i"
    using HASH_less [of bn] by (simp add: rot_unique)
qed

text \<open>
  The example cache with both buffers in use: a miss on block 0 panics.
\<close>

theorem bget_no_buffers_witness:
  "bget 7 1 0 (ex 1 1 None) =
     Some (Panic ''bget: no buffers'' ((ex 1 1 None)\<lparr>spin := (spin (ex 1 1 None))(bcache_lock 0 := Some 7)\<rparr>))"
proof -
  have h: "HASH 0 = 0" by (simp add: HASH_def)
  have b: "spin (ex 1 1 None) (bcache_lock (HASH 0)) = None" by (simp add: ex_def)
  have c: "\<forall>x \<in> set (ex_ls (HASH 0)). \<not> (dev (mem (ex 1 1 None) (Buf x)) = 1 \<and> blockno (mem (ex 1 1 None) (Buf x)) = 0)"
    by (simp add: h ex_ls_def ex_def ex_mem_def)
  have d: "\<forall>i<NBUCKET. (i \<noteq> HASH 0 \<and> holding (bcache_lock i) (ex 1 1 None)) \<or>
                      (\<forall>j \<in> set (ex_ls i). refcnt (mem (ex 1 1 None) (Buf j)) \<noteq> 0)"
    by (simp add: ex_ls_def ex_def ex_mem_def)
  from bget_no_buffers [OF ex_inv b c d, of 7] h show ?thesis by simp
qed

subsection \<open>The victim of the scan\<close>

text \<open>
  Claim C1. The comment of line 86 promises the least recently used unused buffer, and
  the claim asks for the idle buffer with the smallest timestamp of all the buckets; the
  code returns from inside the loop over the buckets, with the candidate of the first
  bucket that has one. The example cache is full and every lock is free. A miss on
  block 0 of device 1 starts at bucket 0 and takes \<open>Buf 0\<close>, stamped at tick 5, although
  \<open>Buf 1\<close> in bucket 1 is idle too and was stamped at tick 1: the buffer taken does not
  have the smallest timestamp among the idle buffers of all the buckets.
\<close>

theorem bget_victim_not_global_lru:
  "map_option returned (bget 7 1 0 (ex 0 0 None)) = Some (Some (Buf 0)) \<and>
   bucket (ex 0 0 None) 1 [1] \<and> \<not> holding (bcache_lock 1) (ex 0 0 None) \<and>
   refcnt (mem (ex 0 0 None) (Buf 1)) = 0 \<and>
   timestamp (mem (ex 0 0 None) (Buf 1)) < timestamp (mem (ex 0 0 None) (Buf 0))"
  by (simp add: bget_def HASH_def acquire_def Let_def ex_def ex_mem_def cached.simps scan.simps
      lru.simps NBUCKET_def holding_def recycle_def upd_def release_def acquiresleep_def
      bucket_def)

text \<open>
  What the scan takes. On a miss the victim comes from the first bucket, in the order
  \<open>id, id + 1, \<dots>\<close> (modulo 13) from the home bucket, that is not passed: a bucket that
  is the home bucket or whose lock is free, and that has a buffer with reference count
  0. The victim is the buffer of that bucket with reference count 0 and the smallest
  timestamp, the first such in list order. Timestamps of different buckets are not
  compared.
\<close>

lemma bget_miss_victim:
  assumes "cache_inv n s ls"
    and "spin s (bcache_lock (HASH bn)) = None" and "spin s tickslock = None"
    and "\<forall>x \<in> set (ls (HASH bn)). \<not> (dev (mem s (Buf x)) = dv \<and> blockno (mem s (Buf x)) = bn)"
    and "k < NBUCKET"
    and "\<forall>k'<k. ((HASH bn + k') mod NBUCKET \<noteq> HASH bn \<and>
                    holding (bcache_lock ((HASH bn + k') mod NBUCKET)) s) \<or>
                 (\<forall>x \<in> set (ls ((HASH bn + k') mod NBUCKET)). refcnt (mem s (Buf x)) \<noteq> 0)"
    and "i = (HASH bn + k) mod NBUCKET"
    and "i = HASH bn \<or> \<not> holding (bcache_lock i) s"
    and "ls i = ys @ j # zs"
    and "refcnt (mem s (Buf j)) = 0"
    and "\<forall>y \<in> set ys. refcnt (mem s (Buf y)) = 0 \<longrightarrow>
                       timestamp (mem s (Buf j)) < timestamp (mem s (Buf y))"
    and "\<forall>z \<in> set zs. refcnt (mem s (Buf z)) = 0 \<longrightarrow>
                       timestamp (mem s (Buf j)) \<le> timestamp (mem s (Buf z))"
    and "lock (mem s (Buf j)) = None"
  shows "\<exists>s'. bget t dv bn s = Some (Return (Buf j) s')"
proof -
  have miss: "find (hit s dv bn) (ls (HASH bn)) = None"
    using assms(4) by (simp add: find_None_iff hit_def)
  have P: "\<forall>k'<k. passes s ls (HASH bn) ((HASH bn + k') mod NBUCKET)"
    using assms(6) by (simp add: passes_def)
  have N: "\<not> passes s ls (HASH bn) i"
    using assms(8,9,10) by (auto simp: passes_def)
  have "candidate s (ls i) = foldl (pick (mem s)) Null (map Buf ys @ Buf j # map Buf zs)"
    by (simp add: candidate_def assms(9))
  also have "\<dots> = Buf j"
    using assms(10,11,12) by (intro pick_fold_lru) auto
  finally have c: "candidate s (ls i) = Buf j" .
  have "bget t dv bn s = Some (commit t dv bn (HASH bn) i (candidate s (ls i)) s)"
    using assms(1,2) miss assms(5,7) P N by (rule bget_miss_pick)
  with c assms(3,13) show ?thesis by (simp add: commit_def)
qed

lemma ex3_inv: "cache_inv 3 ex3 ex3_ls"
proof -
  have "(\<Union>i<NBUCKET. set (ex3_ls i)) = {..<3}"
  proof (intro equalityI subsetI)
    fix x assume "x \<in> (\<Union>i<NBUCKET. set (ex3_ls i))"
    then show "x \<in> {..<3}" by (auto simp: ex3_ls_def split: if_splits)
  next
    fix x :: nat assume "x \<in> {..<3}"
    then have "x = 0 \<or> x = 1 \<or> x = 2" by auto
    then have "x \<in> set (ex3_ls 0) \<and> 0 < NBUCKET" by (auto simp: ex3_ls_def NBUCKET_def)
    then show "x \<in> (\<Union>i<NBUCKET. set (ex3_ls i))" by blast
  qed
  then show ?thesis
    by (auto simp: cache_inv_def bucket_def ex3_def ex3_mem_def ex3_ls_def)
qed

text \<open>
  In the three-buffer example a miss on block 0 of device 1 takes the second buffer of
  bucket 0, \<open>Buf 1\<close>: the buffer before it is idle with a larger timestamp, the buffer
  after it is idle with a timestamp not smaller.
\<close>

lemma bget_miss_victim_example:
  "\<exists>s'. bget 7 1 0 ex3 = Some (Return (Buf 1) s')"
proof -
  have h: "HASH 0 = 0" by (simp add: HASH_def)
  have 1: "spin ex3 (bcache_lock (HASH 0)) = None" "spin ex3 tickslock = None"
    by (simp_all add: ex3_def)
  have 2: "\<forall>x \<in> set (ex3_ls (HASH 0)). \<not> (dev (mem ex3 (Buf x)) = 1 \<and> blockno (mem ex3 (Buf x)) = 0)"
    by (simp add: h ex3_ls_def ex3_def ex3_mem_def)
  have 3: "(0::nat) < NBUCKET" by (simp add: NBUCKET_def)
  have 4: "\<forall>k'<0. ((HASH 0 + k') mod NBUCKET \<noteq> HASH 0 \<and>
                    holding (bcache_lock ((HASH 0 + k') mod NBUCKET)) ex3) \<or>
                 (\<forall>x \<in> set (ex3_ls ((HASH 0 + k') mod NBUCKET)). refcnt (mem ex3 (Buf x)) \<noteq> 0)"
    by simp
  have 5: "(0::nat) = (HASH 0 + 0) mod NBUCKET" by (simp add: h NBUCKET_def)
  have 6: "0 = HASH 0 \<or> \<not> holding (bcache_lock 0) ex3" by (simp add: h)
  have 7: "ex3_ls 0 = [0] @ 1 # [2]" by (simp add: ex3_ls_def)
  have 8: "refcnt (mem ex3 (Buf 1)) = 0" "lock (mem ex3 (Buf 1)) = None"
    by (simp_all add: ex3_def ex3_mem_def)
  have 9: "\<forall>y \<in> set [0]. refcnt (mem ex3 (Buf y)) = 0 \<longrightarrow>
             timestamp (mem ex3 (Buf 1)) < timestamp (mem ex3 (Buf y))"
    "\<forall>z \<in> set [2]. refcnt (mem ex3 (Buf z)) = 0 \<longrightarrow>
             timestamp (mem ex3 (Buf 1)) \<le> timestamp (mem ex3 (Buf z))"
    by (simp_all add: ex3_def ex3_mem_def)
  show ?thesis
    by (rule bget_miss_victim [OF ex3_inv 1 2 3 4 5 6 7 8(1) 9 8(2)])
qed

subsection \<open>What a miss leaves behind\<close>

lemma bget_miss_return:
  assumes "cache_inv n s ls"
    and "\<forall>x \<in> set (ls (HASH bn)). \<not> (dev (mem s (Buf x)) = dv \<and> blockno (mem s (Buf x)) = bn)"
    and "bget t dv bn s = Some (Return b s')"
  shows "dev (mem s' b) = dv \<and> blockno (mem s' b) = bn \<and> \<not> valid (mem s' b) \<and>
         refcnt (mem s' b) = 1 \<and> timestamp (mem s' b) = ticks s \<and>
         lock (mem s' b) = Some t \<and>
         spin s' = spin s \<and> spin s (bcache_lock (HASH bn)) = None \<and>
         (\<exists>i j. i < NBUCKET \<and> j \<in> set (ls i) \<and> b = Buf j \<and> refcnt (mem s (Buf j)) = 0 \<and>
            cache_inv n s' (move j i (HASH bn) ls))"
  using assms(1)
proof (cases rule: bget_cases [where t = t and dv = dv and bn = bn])
  case spin
  with assms(3) show ?thesis by simp
next
  case (hit xs j ys)
  with assms(2) show ?thesis by (auto simp: hit_def)
next
  case panic
  with assms(3) show ?thesis by simp
next
  case (pick k i j)
  from pick(3,4) have i: "i < NBUCKET" by (simp add: NBUCKET_def)
  from pick(10) assms(3) have c: "commit t dv bn (HASH bn) i (Buf j) s = Return b s'" by simp
  note r = commit_Return [OF c]
  have st: "state_of (commit t dv bn (HASH bn) i (Buf j) s) = s'" by (simp add: c)
  have inv': "cache_inv n s' (move j i (HASH bn) ls)"
    using commit_inv [OF assms(1) i pick(8), of t dv bn] by (simp add: st)
  have "dev (mem s' b) = dv \<and> blockno (mem s' b) = bn \<and> \<not> valid (mem s' b) \<and>
         refcnt (mem s' b) = 1 \<and> timestamp (mem s' b) = ticks s \<and>
         lock (mem s' b) = Some t \<and> spin s' = spin s"
    by (simp add: r(4) r(1) upd_simps renew_def relocate_rest)
  with pick(1,8,9) i r(1) inv' show ?thesis by blast
qed

lemma bget_miss_returns:
  assumes inv: "cache_inv n s ls"
    and miss: "\<forall>x \<in> set (ls (HASH bn)). \<not> (dev (mem s (Buf x)) = dv \<and> blockno (mem s (Buf x)) = bn)"
    and home: "spin s (bcache_lock (HASH bn)) = None" and tl: "spin s tickslock = None"
    and idle: "\<exists>i<NBUCKET. (i = HASH bn \<or> \<not> holding (bcache_lock i) s) \<and>
                         (\<exists>j \<in> set (ls i). refcnt (mem s (Buf j)) = 0)"
    and free: "\<forall>j<n. refcnt (mem s (Buf j)) = 0 \<longrightarrow> lock (mem s (Buf j)) = None"
  shows "\<exists>b s'. bget t dv bn s = Some (Return b s')"
  using inv
proof (cases rule: bget_cases [where t = t and dv = dv and bn = bn])
  case spin
  with home show ?thesis by simp
next
  case (hit xs j ys)
  with miss show ?thesis by (auto simp: hit_def)
next
  case panic
  from idle obtain i where i: "i < NBUCKET" "\<not> passes s ls (HASH bn) i"
    by (auto simp: passes_def)
  from rot_unique [OF HASH_less i(1), of bn] obtain k where
    "k < NBUCKET" "(HASH bn + k) mod NBUCKET = i" by blast
  with panic(3) i(2) show ?thesis by auto
next
  case (pick k i j)
  from pick(3,4) have "i < NBUCKET" by (simp add: NBUCKET_def)
  with inv pick(8) have "j < n" by (auto simp: cache_inv_def)
  with free pick(9) have "lock (mem s (Buf j)) = None" by simp
  with pick(10) tl show ?thesis by (simp add: commit_def)
qed

text \<open>
  Claim C4. In a well-formed cache, take a call of \<^verbatim>\<open>bget\<close> that misses in the home
  bucket. If the lock of the home bucket and \<^verbatim>\<open>tickslock\<close> are free, some bucket that the
  scan can lock has a buffer with reference count 0, and no thread holds the sleeplock
  of a buffer with reference count 0, then the call returns. And whenever it returns, the
  buffer \<open>b\<close> it returns has the device and block asked for, is not valid, has reference
  count 1 and the current value of \<^verbatim>\<open>ticks\<close> as its timestamp, and its sleeplock is held
  by the caller; every spinlock is as it was before the call, when the lock of the home
  bucket was free, so the call has released every lock it took. The buffer was idle in
  the list of some bucket \<open>i\<close>. If \<open>i\<close> is the home bucket, every list is as it was. If
  not, the buffer has left the list of \<open>i\<close>, which is otherwise as before, and is now
  the first of the list of the home bucket, before the buffers that were there; every
  other list is as it was.
\<close>

theorem bget_miss_post:
  assumes "cache_inv n s ls"
    and "\<forall>x \<in> set (ls (HASH bn)). \<not> (dev (mem s (Buf x)) = dv \<and> blockno (mem s (Buf x)) = bn)"
  shows "(spin s (bcache_lock (HASH bn)) = None \<and> spin s tickslock = None \<and>
          (\<exists>i<NBUCKET. (i = HASH bn \<or> \<not> holding (bcache_lock i) s) \<and>
                       (\<exists>j \<in> set (ls i). refcnt (mem s (Buf j)) = 0)) \<and>
          (\<forall>j<n. refcnt (mem s (Buf j)) = 0 \<longrightarrow> lock (mem s (Buf j)) = None)
          \<longrightarrow> (\<exists>b s'. bget t dv bn s = Some (Return b s'))) \<and>
         (\<forall>b s'. bget t dv bn s = Some (Return b s') \<longrightarrow>
            dev (mem s' b) = dv \<and> blockno (mem s' b) = bn \<and> \<not> valid (mem s' b) \<and>
            refcnt (mem s' b) = 1 \<and> timestamp (mem s' b) = ticks s \<and>
            lock (mem s' b) = Some t \<and>
            spin s' = spin s \<and> spin s (bcache_lock (HASH bn)) = None \<and>
            (\<exists>i j. i < NBUCKET \<and> j \<in> set (ls i) \<and> b = Buf j \<and> refcnt (mem s (Buf j)) = 0 \<and>
               (if i = HASH bn then bucket s' i (ls i)
                else bucket s' (HASH bn) (j # ls (HASH bn)) \<and> bucket s' i (remove1 j (ls i))) \<and>
               (\<forall>k<NBUCKET. k \<noteq> i \<and> k \<noteq> HASH bn \<longrightarrow> bucket s' k (ls k)) \<and>
               cache_inv n s' (if i = HASH bn then ls
                               else ls(i := remove1 j (ls i), HASH bn := j # ls (HASH bn)))))"
proof -
  have A: "\<exists>b s'. bget t dv bn s = Some (Return b s')"
    if "spin s (bcache_lock (HASH bn)) = None \<and> spin s tickslock = None \<and>
          (\<exists>i<NBUCKET. (i = HASH bn \<or> \<not> holding (bcache_lock i) s) \<and>
                       (\<exists>j \<in> set (ls i). refcnt (mem s (Buf j)) = 0)) \<and>
          (\<forall>j<n. refcnt (mem s (Buf j)) = 0 \<longrightarrow> lock (mem s (Buf j)) = None)"
    using assms that by (intro bget_miss_returns [where n = n and ls = ls]) blast+
  have B: "dev (mem s' b) = dv \<and> blockno (mem s' b) = bn \<and> \<not> valid (mem s' b) \<and>
            refcnt (mem s' b) = 1 \<and> timestamp (mem s' b) = ticks s \<and>
            lock (mem s' b) = Some t \<and>
            spin s' = spin s \<and> spin s (bcache_lock (HASH bn)) = None \<and>
            (\<exists>i j. i < NBUCKET \<and> j \<in> set (ls i) \<and> b = Buf j \<and> refcnt (mem s (Buf j)) = 0 \<and>
               (if i = HASH bn then bucket s' i (ls i)
                else bucket s' (HASH bn) (j # ls (HASH bn)) \<and> bucket s' i (remove1 j (ls i))) \<and>
               (\<forall>k<NBUCKET. k \<noteq> i \<and> k \<noteq> HASH bn \<longrightarrow> bucket s' k (ls k)) \<and>
               cache_inv n s' (if i = HASH bn then ls
                               else ls(i := remove1 j (ls i), HASH bn := j # ls (HASH bn))))"
    if r: "bget t dv bn s = Some (Return b s')" for b s'
  proof -
    from bget_miss_return [OF assms r] obtain i j where
      f: "dev (mem s' b) = dv" "blockno (mem s' b) = bn" "\<not> valid (mem s' b)"
         "refcnt (mem s' b) = 1" "timestamp (mem s' b) = ticks s" "lock (mem s' b) = Some t"
         "spin s' = spin s" "spin s (bcache_lock (HASH bn)) = None"
      and ij: "i < NBUCKET" "j \<in> set (ls i)" "b = Buf j" "refcnt (mem s (Buf j)) = 0"
      and inv': "cache_inv n s' (move j i (HASH bn) ls)"
      by blast
    have m: "move j i (HASH bn) ls =
        (if i = HASH bn then ls else ls(i := remove1 j (ls i), HASH bn := j # ls (HASH bn)))"
      by (simp add: move_def)
    from inv' have bk: "\<And>k. k < NBUCKET \<Longrightarrow> bucket s' k (move j i (HASH bn) ls k)"
      by (simp add: cache_inv_def)
    have 1: "if i = HASH bn then bucket s' i (ls i)
             else bucket s' (HASH bn) (j # ls (HASH bn)) \<and> bucket s' i (remove1 j (ls i))"
    proof (cases "i = HASH bn")
      case True
      then have "move j i (HASH bn) ls i = ls i" by (simp add: move_apply)
      with bk [OF ij(1)] True show ?thesis by simp
    next
      case False
      then have "move j i (HASH bn) ls i = remove1 j (ls i)"
        and "move j i (HASH bn) ls (HASH bn) = j # ls (HASH bn)"
        by (simp_all add: move_apply)
      with bk [OF ij(1)] bk [OF HASH_less [of bn]] False show ?thesis by simp
    qed
    have 2: "\<forall>k<NBUCKET. k \<noteq> i \<and> k \<noteq> HASH bn \<longrightarrow> bucket s' k (ls k)"
    proof (intro allI impI)
      fix k assume k: "k < NBUCKET" "k \<noteq> i \<and> k \<noteq> HASH bn"
      then have "move j i (HASH bn) ls k = ls k" by (simp add: move_apply)
      with bk [OF k(1)] show "bucket s' k (ls k)" by simp
    qed
    from inv' have 3: "cache_inv n s' (if i = HASH bn then ls
                                 else ls(i := remove1 j (ls i), HASH bn := j # ls (HASH bn)))"
      by (simp only: m)
    have E: "\<exists>i j. i < NBUCKET \<and> j \<in> set (ls i) \<and> b = Buf j \<and> refcnt (mem s (Buf j)) = 0 \<and>
                 (if i = HASH bn then bucket s' i (ls i)
                  else bucket s' (HASH bn) (j # ls (HASH bn)) \<and> bucket s' i (remove1 j (ls i))) \<and>
                 (\<forall>k<NBUCKET. k \<noteq> i \<and> k \<noteq> HASH bn \<longrightarrow> bucket s' k (ls k)) \<and>
                 cache_inv n s' (if i = HASH bn then ls
                                 else ls(i := remove1 j (ls i), HASH bn := j # ls (HASH bn)))"
      by (intro exI [of _ i] exI [of _ j] conjI) (fact ij 1 2 3)+
    from f E show ?thesis by (intro conjI) assumption+
  qed
  show ?thesis
    by (rule conjI, rule impI, erule A, intro allI impI, erule B)
qed

text \<open>
  The example cache with \<open>Buf 0\<close> in use and \<open>Buf 1\<close> idle in bucket 1. A miss on
  block 0 of device 1, whose home bucket is 0, returns \<open>Buf 1\<close> with the new identity:
  it has left the list of bucket 1, which is now empty, and is the first of the list of
  bucket 0, before \<open>Buf 0\<close>.
\<close>

theorem bget_miss_post_witness:
  "\<exists>s'. bget 7 1 0 (ex 1 0 None) = Some (Return (Buf 1) s') \<and>
        dev (mem s' (Buf 1)) = 1 \<and> blockno (mem s' (Buf 1)) = 0 \<and> \<not> valid (mem s' (Buf 1)) \<and>
        refcnt (mem s' (Buf 1)) = 1 \<and> timestamp (mem s' (Buf 1)) = 9 \<and>
        lock (mem s' (Buf 1)) = Some 7 \<and> spin s' = spin (ex 1 0 None) \<and>
        bucket s' 0 [1, 0] \<and> bucket s' 1 []"
proof -
  have h: "HASH 0 = 0" by (simp add: HASH_def)
  have 1: "\<forall>x \<in> set (ex_ls (HASH 0)). \<not> (dev (mem (ex 1 0 None) (Buf x)) = 1 \<and> blockno (mem (ex 1 0 None) (Buf x)) = 0)"
    by (simp add: h ex_ls_def ex_def ex_mem_def)
  note T = bget_miss_post [OF ex_inv 1, of 7, unfolded h]
  have 2: "spin (ex 1 0 None) (bcache_lock 0) = None \<and> spin (ex 1 0 None) tickslock = None \<and>
          (\<exists>i<NBUCKET. (i = 0 \<or> \<not> holding (bcache_lock i) (ex 1 0 None)) \<and>
                       (\<exists>j \<in> set (ex_ls i). refcnt (mem (ex 1 0 None) (Buf j)) = 0)) \<and>
          (\<forall>j<2. refcnt (mem (ex 1 0 None) (Buf j)) = 0 \<longrightarrow> lock (mem (ex 1 0 None) (Buf j)) = None)"
  proof (intro conjI)
    show "\<exists>i<NBUCKET. (i = 0 \<or> \<not> holding (bcache_lock i) (ex 1 0 None)) \<and>
                       (\<exists>j \<in> set (ex_ls i). refcnt (mem (ex 1 0 None) (Buf j)) = 0)"
      by (rule exI [of _ 1]) (simp add: NBUCKET_def holding_def ex_ls_def ex_def ex_mem_def)
    show "\<forall>j<2. refcnt (mem (ex 1 0 None) (Buf j)) = 0 \<longrightarrow> lock (mem (ex 1 0 None) (Buf j)) = None"
      by (simp add: ex_def ex_mem_def)
  qed (simp_all add: ex_def)
  from T [THEN conjunct1, rule_format, OF 2]
  obtain b s' where r: "bget 7 1 0 (ex 1 0 None) = Some (Return b s')" by (elim exE)
  from T [THEN conjunct2, rule_format, OF r] obtain i j where
    f: "dev (mem s' b) = 1" "blockno (mem s' b) = 0" "\<not> valid (mem s' b)"
       "refcnt (mem s' b) = 1" "timestamp (mem s' b) = ticks (ex 1 0 None)"
       "lock (mem s' b) = Some 7" "spin s' = spin (ex 1 0 None)"
    and ij: "i < NBUCKET" "j \<in> set (ex_ls i)" "b = Buf j" "refcnt (mem (ex 1 0 None) (Buf j)) = 0"
    and bk: "if i = 0 then bucket s' i (ex_ls i)
             else bucket s' 0 (j # ex_ls 0) \<and> bucket s' i (remove1 j (ex_ls i))"
    by (elim conjE exE)
  from ij(2,4) have "i = 1 \<and> j = 1"
    by (auto simp: ex_ls_def ex_def ex_mem_def split: if_splits)
  with bk ij(3) have "b = Buf 1" "bucket s' 0 [1, 0]" "bucket s' 1 []"
    by (simp_all add: ex_ls_def)
  moreover have "ticks (ex 1 0 None) = 9" by (simp add: ex_def)
  ultimately show ?thesis using r f by auto
qed

lemma bget_miss_frame:
  assumes "cache_inv n s ls"
    and "\<forall>x \<in> set (ls (HASH bn)). \<not> (dev (mem s (Buf x)) = dv \<and> blockno (mem s (Buf x)) = bn)"
    and "bget t dv bn s = Some r"
  shows "(\<forall>b. returned r = Some b \<longrightarrow> refcnt (mem s b) = 0) \<and>
         (\<exists>ls'. cache_inv n (state_of r) ls' \<and>
            (\<forall>j. refcnt (mem s (Buf j)) \<noteq> 0 \<longrightarrow>
               dev (mem (state_of r) (Buf j)) = dev (mem s (Buf j)) \<and>
               blockno (mem (state_of r) (Buf j)) = blockno (mem s (Buf j)) \<and>
               valid (mem (state_of r) (Buf j)) = valid (mem s (Buf j)) \<and>
               refcnt (mem (state_of r) (Buf j)) = refcnt (mem s (Buf j)) \<and>
               timestamp (mem (state_of r) (Buf j)) = timestamp (mem s (Buf j)) \<and>
               lock (mem (state_of r) (Buf j)) = lock (mem s (Buf j)) \<and>
               data (mem (state_of r) (Buf j)) = data (mem s (Buf j)) \<and>
               (\<forall>i<NBUCKET. (j \<in> set (ls' i)) = (j \<in> set (ls i)))))"
  using assms(1)
proof (cases rule: bget_cases [where t = t and dv = dv and bn = bn])
  case spin
  with assms(1,3) show ?thesis by auto
next
  case (hit xs j ys)
  with assms(2) show ?thesis by (auto simp: hit_def)
next
  case panic
  with assms(3) have r: "r = Panic ''bget: no buffers'' (s\<lparr>spin := (spin s)(bcache_lock (HASH bn) := Some t)\<rparr>)"
    by simp
  have "cache_inv n (state_of r) ls" using assms(1) by (simp add: r cache_inv_spin)
  then show ?thesis by (auto simp: r)
next
  case (pick k i j)
  from pick(3,4) have i: "i < NBUCKET" by (simp add: NBUCKET_def)
  from pick(10) assms(3) have r: "r = commit t dv bn (HASH bn) i (Buf j) s" by simp
  have a: "\<forall>b. returned r = Some b \<longrightarrow> refcnt (mem s b) = 0"
    using pick(9) by (auto simp: r commit_def)
  have inv': "cache_inv n (state_of r) (move j i (HASH bn) ls)"
    unfolding r using assms(1) i pick(8) by (rule commit_inv)
  from assms(1) i have d: "distinct (ls i)" by (simp add: cache_inv_def)
  have b: "\<forall>j'. refcnt (mem s (Buf j')) \<noteq> 0 \<longrightarrow>
               dev (mem (state_of r) (Buf j')) = dev (mem s (Buf j')) \<and>
               blockno (mem (state_of r) (Buf j')) = blockno (mem s (Buf j')) \<and>
               valid (mem (state_of r) (Buf j')) = valid (mem s (Buf j')) \<and>
               refcnt (mem (state_of r) (Buf j')) = refcnt (mem s (Buf j')) \<and>
               timestamp (mem (state_of r) (Buf j')) = timestamp (mem s (Buf j')) \<and>
               lock (mem (state_of r) (Buf j')) = lock (mem s (Buf j')) \<and>
               data (mem (state_of r) (Buf j')) = data (mem s (Buf j')) \<and>
               (\<forall>i'<NBUCKET. (j' \<in> set (move j i (HASH bn) ls i')) = (j' \<in> set (ls i')))"
  proof (intro allI impI)
    fix j' assume "refcnt (mem s (Buf j')) \<noteq> 0"
    with pick(9) have ne: "j' \<noteq> j" by auto
    then have "Buf j' \<noteq> Buf j" by simp
    note o = commit_other [OF this, of t dv bn "HASH bn" i s]
    have "\<forall>i'<NBUCKET. (j' \<in> set (move j i (HASH bn) ls i')) = (j' \<in> set (ls i'))"
      using ne by (simp add: move_set [where j = j and ls = ls and i = i, OF pick(8) d])
    with o show "dev (mem (state_of r) (Buf j')) = dev (mem s (Buf j')) \<and>
               blockno (mem (state_of r) (Buf j')) = blockno (mem s (Buf j')) \<and>
               valid (mem (state_of r) (Buf j')) = valid (mem s (Buf j')) \<and>
               refcnt (mem (state_of r) (Buf j')) = refcnt (mem s (Buf j')) \<and>
               timestamp (mem (state_of r) (Buf j')) = timestamp (mem s (Buf j')) \<and>
               lock (mem (state_of r) (Buf j')) = lock (mem s (Buf j')) \<and>
               data (mem (state_of r) (Buf j')) = data (mem s (Buf j')) \<and>
               (\<forall>i'<NBUCKET. (j' \<in> set (move j i (HASH bn) ls i')) = (j' \<in> set (ls i')))"
      by (simp add: r)
  qed
  from a inv' b show ?thesis by blast
qed

lemma bget_total:
  assumes "cache_inv n s ls"
  shows "\<exists>r. bget t dv bn s = Some r"
  using assms by (cases rule: bget_cases [where t = t and dv = dv and bn = bn]) blast+

text \<open>
  Claim C6. On a miss in a well-formed cache \<^verbatim>\<open>bget\<close> comes to an end (a return, a
  panic, waiting for a spinlock or sleeping on a sleeplock), and whichever it is, a
  buffer that it returns had reference count 0 when the call started, which is when the
  scan chose it, no store having happened in between; and a buffer whose reference
  count was not 0 then has kept its device, block number, validity, reference count,
  timestamp, sleeplock and content, and is in the list of the same bucket as before.
\<close>

theorem bget_evicts_idle_only:
  assumes "cache_inv n s ls"
    and "\<forall>x \<in> set (ls (HASH bn)). \<not> (dev (mem s (Buf x)) = dv \<and> blockno (mem s (Buf x)) = bn)"
  shows "\<exists>r. bget t dv bn s = Some r \<and>
         (\<forall>b. returned r = Some b \<longrightarrow> refcnt (mem s b) = 0) \<and>
         (\<exists>ls'. cache_inv n (state_of r) ls' \<and>
            (\<forall>j. refcnt (mem s (Buf j)) \<noteq> 0 \<longrightarrow>
               dev (mem (state_of r) (Buf j)) = dev (mem s (Buf j)) \<and>
               blockno (mem (state_of r) (Buf j)) = blockno (mem s (Buf j)) \<and>
               valid (mem (state_of r) (Buf j)) = valid (mem s (Buf j)) \<and>
               refcnt (mem (state_of r) (Buf j)) = refcnt (mem s (Buf j)) \<and>
               timestamp (mem (state_of r) (Buf j)) = timestamp (mem s (Buf j)) \<and>
               lock (mem (state_of r) (Buf j)) = lock (mem s (Buf j)) \<and>
               data (mem (state_of r) (Buf j)) = data (mem s (Buf j)) \<and>
               (\<forall>i<NBUCKET. (j \<in> set (ls' i)) = (j \<in> set (ls i)))))"
proof -
  from bget_total [OF assms(1)] obtain r where r: "bget t dv bn s = Some r" ..
  from bget_miss_frame [OF assms r] r show ?thesis by blast
qed

text \<open>
  The example cache with \<open>Buf 0\<close> in use and \<open>Buf 1\<close> idle: a miss on block 0 of
  device 1 finds nothing to take in bucket 0 and moves \<open>Buf 1\<close> over from bucket 1;
  \<open>Buf 0\<close> keeps block 13.
\<close>

theorem bget_evicts_idle_only_witness:
  "\<exists>s'. bget 7 1 0 (ex 1 0 None) = Some (Return (Buf 1) s') \<and>
        refcnt (mem (ex 1 0 None) (Buf 1)) = 0 \<and>
        blockno (mem s' (Buf 0)) = 13 \<and> refcnt (mem s' (Buf 0)) = 1"
proof -
  have h: "HASH 0 = 0" by (simp add: HASH_def)
  have 1: "\<forall>x \<in> set (ex_ls (HASH 0)). \<not> (dev (mem (ex 1 0 None) (Buf x)) = 1 \<and> blockno (mem (ex 1 0 None) (Buf x)) = 0)"
    by (simp add: h ex_ls_def ex_def ex_mem_def)
  obtain s' where 2: "bget 7 1 0 (ex 1 0 None) = Some (Return (Buf 1) s')"
    by (simp add: bget_def HASH_def acquire_def Let_def ex_def ex_mem_def cached.simps scan.simps
      lru.simps NBUCKET_def holding_def recycle_def upd_def release_def acquiresleep_def
      unlink_def push_front_def)
  have 3: "refcnt (mem (ex 1 0 None) (Buf 0)) \<noteq> 0" "blockno (mem (ex 1 0 None) (Buf 0)) = 13"
    "refcnt (mem (ex 1 0 None) (Buf 0)) = 1"
    by (simp_all add: ex_def ex_mem_def)
  from bget_evicts_idle_only [OF ex_inv 1, of 7] 2 3 show ?thesis by auto
qed

subsection \<open>bwrite, brelse and the timestamps\<close>

text \<open>
  Claim C9. Called by a thread that does not hold the sleeplock of the buffer,
  \<^verbatim>\<open>bwrite\<close> and \<^verbatim>\<open>brelse\<close> panic in the state they were called in, before any store.
  Called by the holder, \<^verbatim>\<open>bwrite\<close> returns; it leaves the store of buffers (so every
  validity flag and reference count) and the spinlocks as they were, writes the content
  of the buffer to its block of its device, and that is its one call of the disk.
\<close>

theorem bwrite_brelse_contract:
  "(\<not> holdingsleep t b s \<longrightarrow>
      bwrite t b s = Panic ''bwrite'' s \<and> brelse t b s = Panic ''brelse'' s) \<and>
   (holdingsleep t b s \<longrightarrow>
      (\<exists>s'. bwrite t b s = Return () s' \<and>
            valid (mem s' b) = valid (mem s b) \<and> refcnt (mem s' b) = refcnt (mem s b) \<and>
            mem s' = mem s \<and> spin s' = spin s \<and> ticks s' = ticks s \<and>
            io s' = (b, True) # io s \<and>
            disk s' = (disk s)((dev (mem s b), blockno (mem s b)) := data (mem s b))))"
  by (simp add: bwrite_def brelse_def virtio_disk_rw_def Let_def)

text \<open>
  In the example cache thread 7 holds no sleeplock, so its \<^verbatim>\<open>bwrite\<close> and \<^verbatim>\<open>brelse\<close>
  of \<open>Buf 0\<close> panic; when it holds the sleeplock of \<open>Buf 0\<close>, its \<^verbatim>\<open>bwrite\<close> returns
  and the reference count is still 1.
\<close>

theorem bwrite_brelse_contract_witness:
  "bwrite 7 (Buf 0) (ex 1 1 None) = Panic ''bwrite'' (ex 1 1 None) \<and>
   brelse 7 (Buf 0) (ex 1 1 None) = Panic ''brelse'' (ex 1 1 None) \<and>
   (\<exists>s'. bwrite 7 (Buf 0) (ex 1 1 (Some 7)) = Return () s' \<and>
         refcnt (mem s' (Buf 0)) = 1 \<and> valid (mem s' (Buf 0)) \<and> io s' = [(Buf 0, True)])"
proof -
  have 1: "\<not> holdingsleep 7 (Buf 0) (ex 1 1 None)"
    by (simp add: holdingsleep_def ex_def ex_mem_def)
  have 2: "holdingsleep 7 (Buf 0) (ex 1 1 (Some 7))"
    by (simp add: holdingsleep_def ex_def ex_mem_def)
  have 3: "refcnt (mem (ex 1 1 (Some 7)) (Buf 0)) = 1" "valid (mem (ex 1 1 (Some 7)) (Buf 0))"
    "io (ex 1 1 (Some 7)) = []"
    by (simp_all add: ex_def ex_mem_def)
  from bwrite_brelse_contract [of 7 "Buf 0" "ex 1 1 None"] 1
    bwrite_brelse_contract [of 7 "Buf 0" "ex 1 1 (Some 7)"] 2 3
  show ?thesis by auto
qed

text \<open>
  Claim C3, against the claim as it is written. In the example cache with reference
  count 2 on \<open>Buf 0\<close>, whose sleeplock thread 7 holds, \<^verbatim>\<open>brelse\<close> returns and leaves the
  reference count at 1, and yet the timestamp has gone from 5 to 9, the value of
  \<^verbatim>\<open>ticks\<close>: the buffer is stamped although its reference count did not reach 0.
\<close>

theorem brelse_stamps_busy_buffer:
  "returned (brelse 7 (Buf 0) (ex 2 0 (Some 7))) = Some () \<and>
   refcnt (mem (state_of (brelse 7 (Buf 0) (ex 2 0 (Some 7)))) (Buf 0)) = 1 \<and>
   timestamp (mem (ex 2 0 (Some 7)) (Buf 0)) = 5 \<and>
   timestamp (mem (state_of (brelse 7 (Buf 0) (ex 2 0 (Some 7)))) (Buf 0)) = 9"
  by (simp add: brelse_def holdingsleep_def releasesleep_def acquire_def release_def Let_def
      upd_def HASH_def ex_def ex_mem_def)

text \<open>
  Claim C3, as amended. A \<^verbatim>\<open>brelse\<close> that returns has taken one from the reference
  count and has set the timestamp to the value of \<^verbatim>\<open>ticks\<close>, whatever the new reference
  count is. \<^verbatim>\<open>bpin\<close> and \<^verbatim>\<open>bunpin\<close> leave every timestamp as it was, also when
  \<^verbatim>\<open>bunpin\<close> brings the reference count to 0.
\<close>

theorem timestamp_stamping:
  "(returned (brelse t b s) = Some () \<longrightarrow>
      timestamp (mem (state_of (brelse t b s)) b) = ticks s \<and>
      refcnt (mem (state_of (brelse t b s)) b) = refcnt (mem s b) - 1) \<and>
   (\<forall>x. timestamp (mem (state_of (bpin t b s)) x) = timestamp (mem s x)) \<and>
   (\<forall>x. timestamp (mem (state_of (bunpin t b s)) x) = timestamp (mem s x)) \<and>
   (returned (bunpin t b s) = Some () \<longrightarrow>
      refcnt (mem (state_of (bunpin t b s)) b) = refcnt (mem s b) - 1)"
  by (auto simp: brelse_def bpin_def bunpin_def holdingsleep_def releasesleep_def acquire_def
      release_def Let_def upd_def split: option.splits if_splits)

text \<open>
  In the example cache: the last \<^verbatim>\<open>brelse\<close> of \<open>Buf 0\<close> stamps it with tick 9, and a
  \<^verbatim>\<open>bunpin\<close> that brings \<open>Buf 1\<close> to reference count 0 leaves its timestamp at 1.
\<close>

theorem timestamp_stamping_witness:
  "returned (brelse 7 (Buf 0) (ex 1 1 (Some 7))) = Some () \<and>
   timestamp (mem (state_of (brelse 7 (Buf 0) (ex 1 1 (Some 7)))) (Buf 0)) = 9 \<and>
   returned (bunpin 7 (Buf 1) (ex 1 1 None)) = Some () \<and>
   refcnt (mem (state_of (bunpin 7 (Buf 1) (ex 1 1 None))) (Buf 1)) = 0 \<and>
   timestamp (mem (state_of (bunpin 7 (Buf 1) (ex 1 1 None))) (Buf 1)) = 1"
proof -
  have 1: "returned (brelse 7 (Buf 0) (ex 1 1 (Some 7))) = Some ()"
    by (simp add: brelse_def holdingsleep_def releasesleep_def acquire_def release_def Let_def
      upd_def HASH_def ex_def ex_mem_def)
  have 2: "returned (bunpin 7 (Buf 1) (ex 1 1 None)) = Some ()"
    by (simp add: bunpin_def acquire_def release_def Let_def upd_def HASH_def ex_def ex_mem_def)
  have 3: "ticks (ex 1 1 (Some 7)) = 9" "refcnt (mem (ex 1 1 None) (Buf 1)) = 1"
    "timestamp (mem (ex 1 1 None) (Buf 1)) = 1"
    by (simp_all add: ex_def ex_mem_def)
  from timestamp_stamping [of 7 "Buf 0" "ex 1 1 (Some 7)"]
    timestamp_stamping [of 7 "Buf 1" "ex 1 1 None"] 1 2 3
  show ?thesis by simp
qed

subsection \<open>bread and the disk\<close>

lemma bget_io:
  assumes "cache_inv n s ls" and "bget t dv bn s = Some r"
  shows "io (state_of r) = io s \<and> disk (state_of r) = disk s"
  using assms(1)
proof (cases rule: bget_cases [where t = t and dv = dv and bn = bn])
  case spin
  with assms(2) show ?thesis by auto
next
  case (hit xs j ys)
  with assms(2) show ?thesis by (auto simp: upd_simps split: if_splits)
next
  case panic
  with assms(2) show ?thesis by auto
next
  case (pick k i j)
  with assms(2) show ?thesis by (auto simp: commit_rest)
qed

text \<open>
  Claim C8. When \<^verbatim>\<open>bget\<close> returns the buffer \<open>b\<close> in the state \<open>s1\<close>, \<^verbatim>\<open>bread\<close> returns
  \<open>b\<close> too, valid. \<^verbatim>\<open>bget\<close> itself calls the disk never. If \<open>b\<close> is valid in \<open>s1\<close>,
  \<^verbatim>\<open>bread\<close> adds nothing: its state is \<open>s1\<close>. If it is not, \<^verbatim>\<open>bread\<close> calls the disk
  exactly once, for a read into \<open>b\<close>, and the content of \<open>b\<close> is then what the disk has
  for the device and block of \<open>b\<close>. So the disk is called if and only if \<open>b\<close> is not
  valid in \<open>s1\<close>. In particular, when the home list holds buffers for the device and
  block asked for and they are valid, the buffer returned is one of them, with the
  content it had, and the disk is not called.
\<close>

theorem bread_disk_io:
  assumes "cache_inv n s ls" and "bget t dv bn s = Some (Return b s1)"
  shows "\<exists>s2. bread t dv bn s = Some (Return b s2) \<and> valid (mem s2 b) \<and> io s1 = io s \<and>
           (io s2 \<noteq> io s) = (\<not> valid (mem s1 b)) \<and>
           (valid (mem s1 b) \<longrightarrow> s2 = s1) \<and>
           (\<not> valid (mem s1 b) \<longrightarrow>
              io s2 = (b, False) # io s \<and>
              data (mem s2 b) = disk s (dev (mem s1 b), blockno (mem s1 b))) \<and>
           ((\<exists>j \<in> set (ls (HASH bn)). dev (mem s (Buf j)) = dv \<and> blockno (mem s (Buf j)) = bn) \<and>
            (\<forall>j \<in> set (ls (HASH bn)). dev (mem s (Buf j)) = dv \<and> blockno (mem s (Buf j)) = bn \<longrightarrow>
                                       valid (mem s (Buf j))) \<longrightarrow>
              dev (mem s b) = dv \<and> blockno (mem s b) = bn \<and>
              io s2 = io s \<and> data (mem s2 b) = data (mem s b))"
proof -
  from bget_io [OF assms] have io: "io s1 = io s" "disk s1 = disk s" by simp_all
  define s2 where "s2 = (if valid (mem s1 b) then s1
                         else upd b (\<lambda>x. x\<lparr>valid := True\<rparr>) (virtio_disk_rw b False s1))"
  have r: "bread t dv bn s = Some (Return b s2)"
    by (simp add: bread_def assms(2) s2_def Let_def)
  have v: "valid (mem s2 b)"
    by (simp add: s2_def upd_simps)
  have n: "\<not> valid (mem s1 b) \<longrightarrow>
              io s2 = (b, False) # io s \<and>
              data (mem s2 b) = disk s (dev (mem s1 b), blockno (mem s1 b))"
    by (simp add: s2_def upd_simps virtio_disk_rw_def Let_def io)
  have y: "valid (mem s1 b) \<longrightarrow> s2 = s1" by (simp add: s2_def)
  have iff: "(io s2 \<noteq> io s) = (\<not> valid (mem s1 b))"
    using n y io by auto
  have h: "dev (mem s b) = dv \<and> blockno (mem s b) = bn \<and>
              io s2 = io s \<and> data (mem s2 b) = data (mem s b)"
    if ex: "\<exists>j \<in> set (ls (HASH bn)). dev (mem s (Buf j)) = dv \<and> blockno (mem s (Buf j)) = bn"
    and va: "\<forall>j \<in> set (ls (HASH bn)). dev (mem s (Buf j)) = dv \<and> blockno (mem s (Buf j)) = bn \<longrightarrow>
                                       valid (mem s (Buf j))"
    using assms(1)
  proof (cases rule: bget_cases [where t = t and dv = dv and bn = bn])
    case spin
    with assms(2) show ?thesis by simp
  next
    case (hit xs j ys)
    from hit(2) have j: "j \<in> set (ls (HASH bn))" by simp
    from hit(3) have m: "dev (mem s (Buf j)) = dv \<and> blockno (mem s (Buf j)) = bn"
      by (simp add: hit_def)
    with va j have vj: "valid (mem s (Buf j))" by blast
    from hit(5) assms(2) have b: "b = Buf j"
      and s1: "s1 = upd (Buf j) (\<lambda>x. x\<lparr>refcnt := refcnt x + 1, lock := Some t\<rparr>) s"
      by (auto split: if_splits)
    have "valid (mem s1 b)" using vj by (simp add: b s1 upd_simps)
    with y have "s2 = s1" by simp
    with m io show ?thesis by (simp add: b s1 upd_simps)
  next
    case panic
    with assms(2) show ?thesis by simp
  next
    case (pick k i j)
    with ex show ?thesis by (auto simp: hit_def)
  qed
  from r v io(1) iff y n h show ?thesis by blast
qed

text \<open>
  In the example cache, reading block 13 of device 1 hits the valid \<open>Buf 0\<close> and calls
  the disk never; reading block 0 of device 1 recycles \<open>Buf 0\<close> and calls the disk once.
\<close>

theorem bread_disk_io_witness:
  "(\<exists>s2. bread 7 1 13 (ex 0 0 None) = Some (Return (Buf 0) s2) \<and> io s2 = [] \<and>
         data (mem s2 (Buf 0)) = [7]) \<and>
   (\<exists>s2. bread 7 1 0 (ex 0 0 None) = Some (Return (Buf 0) s2) \<and> io s2 = [(Buf 0, False)] \<and>
         valid (mem s2 (Buf 0)))"
proof -
  obtain s1 where 1: "bget 7 1 13 (ex 0 0 None) = Some (Return (Buf 0) s1)" "valid (mem s1 (Buf 0))"
    by (simp add: bget_def HASH_def acquire_def Let_def ex_def ex_mem_def cached.simps
      upd_def release_def acquiresleep_def)
  obtain s1' where 2: "bget 7 1 0 (ex 0 0 None) = Some (Return (Buf 0) s1')" "\<not> valid (mem s1' (Buf 0))"
    by (simp add: bget_def HASH_def acquire_def Let_def ex_def ex_mem_def cached.simps scan.simps
      lru.simps NBUCKET_def holding_def recycle_def upd_def release_def acquiresleep_def)
  have 3: "io (ex 0 0 None) = []" "data (mem (ex 0 0 None) (Buf 0)) = [7]"
    by (simp_all add: ex_def ex_mem_def)
  have 4: "(\<exists>j \<in> set (ex_ls (HASH 13)). dev (mem (ex 0 0 None) (Buf j)) = 1 \<and> blockno (mem (ex 0 0 None) (Buf j)) = 13) \<and>
            (\<forall>j \<in> set (ex_ls (HASH 13)). dev (mem (ex 0 0 None) (Buf j)) = 1 \<and> blockno (mem (ex 0 0 None) (Buf j)) = 13 \<longrightarrow>
                                       valid (mem (ex 0 0 None) (Buf j)))"
    by (simp add: HASH_def ex_ls_def ex_def ex_mem_def)
  from bread_disk_io [OF ex_inv 1(1)] 1(2) 3 4
  have a: "\<exists>s2. bread 7 1 13 (ex 0 0 None) = Some (Return (Buf 0) s2) \<and> io s2 = [] \<and>
         data (mem s2 (Buf 0)) = [7]"
    by auto
  from bread_disk_io [OF ex_inv 2(1)] 2(2) 3
  have b: "\<exists>s2. bread 7 1 0 (ex 0 0 None) = Some (Return (Buf 0) s2) \<and> io s2 = [(Buf 0, False)] \<and>
         valid (mem s2 (Buf 0))"
    by auto
  from a b show ?thesis ..
qed

subsection \<open>From binit on: every buffer in the bucket of its block\<close>

lemma dpath_unique:
  "dpath m p xs q \<Longrightarrow> dpath m p ys q \<Longrightarrow> q \<notin> set xs \<Longrightarrow> q \<notin> set ys \<Longrightarrow> xs = ys"
proof (induction xs arbitrary: p ys)
  case Nil
  then show ?case by (cases ys) auto
next
  case (Cons x xs)
  then show ?case by (cases ys) auto
qed

lemma bucket_unique: "bucket s i xs \<Longrightarrow> bucket s i ys \<Longrightarrow> xs = ys"
proof -
  assume "bucket s i xs" "bucket s i ys"
  then have "map Buf xs = map Buf ys"
    unfolding bucket_def by (rule dpath_unique) auto
  then show "xs = ys" by (simp add: map_eq_conv inj_on_Buf inj_on_map_eq_map [OF inj_on_Buf])
qed

lemma placed_fields:
  "(\<And>x. blockno (mem s' x) = blockno (mem s x)) \<Longrightarrow> placed s' ls = placed s ls"
  by (simp add: placed_def)

lemma init_bucket_mem:
  "mem (init_bucket i s) = (mem s)(Table i := (mem s (Table i))\<lparr>prev := Table i, next := Table i\<rparr>)"
  by (simp add: init_bucket_def initlock_def Let_def upd_def)

lemma fold_init_bucket:
  "mem (fold init_bucket [0..<k] s) x =
     (case x of Table i \<Rightarrow> if i < k then (mem s x)\<lparr>prev := x, next := x\<rparr> else mem s x
              | _ \<Rightarrow> mem s x)"
  by (induction k) (auto simp: init_bucket_mem split: ptr.splits)

lemma init_buf_links:
  "next (mem (init_buf (Buf j) s) x) = next (mem (push_front 0 (Buf j) s) x)"
  "prev (mem (init_buf (Buf j) s) x) = prev (mem (push_front 0 (Buf j) s) x)"
  by (simp_all add: init_buf_def push_front_def initsleeplock_def Let_def upd_def)

lemma init_buf_blockno:
  "blockno (mem (init_buf b s) x) = blockno (mem s x)"
  by (simp add: init_buf_def initsleeplock_def Let_def upd_def)

lemma push_front_new_inv:
  assumes inv: "cache_inv n s ls" and i: "i < NBUCKET"
  shows "cache_inv (Suc n) (push_front i (Buf n) s) (ls(i := n # ls i))"
proof -
  have new: "n \<notin> set (ls k)" if "k < NBUCKET" for k
  proof
    assume "n \<in> set (ls k)"
    with that have "n \<in> (\<Union>k<NBUCKET. set (ls k))" by blast
    with inv show False by (simp add: cache_inv_def)
  qed
  from inv i have bi: "bucket s i (ls i)" and di: "distinct (ls i)" by (simp_all add: cache_inv_def)
  have 1: "bucket (push_front i (Buf n) s) i (n # ls i)"
    using bi new [OF i] di by (rule bucket_push_front)
  have 2: "bucket (push_front i (Buf n) s) k (ls k)" if "k < NBUCKET" "k \<noteq> i" for k
  proof -
    have "bucket (push_front i (Buf n) s) k (ls k) = bucket s k (ls k)"
      using bi that new [OF that(1)] inv i by (intro bucket_push_front_other [where xs = "ls i"]) (auto simp: cache_inv_def)
    with inv that show ?thesis by (simp add: cache_inv_def)
  qed
  have B: "\<forall>k<NBUCKET. bucket (push_front i (Buf n) s) k ((ls(i := n # ls i)) k) \<and>
             distinct ((ls(i := n # ls i)) k)"
    using 1 2 new [OF i] di inv by (auto simp: cache_inv_def)
  have D: "\<forall>a<NBUCKET. \<forall>b<NBUCKET. a \<noteq> b \<longrightarrow>
             set ((ls(i := n # ls i)) a) \<inter> set ((ls(i := n # ls i)) b) = {}"
    using inv new by (auto simp: cache_inv_def)
  have "(\<Union>k<NBUCKET. set ((ls(i := n # ls i)) k)) = insert n (\<Union>k<NBUCKET. set (ls k))"
    using i by (auto split: if_splits)
  also have "\<dots> = {..<Suc n}" using inv by (auto simp: cache_inv_def)
  finally have U: "(\<Union>k<NBUCKET. set ((ls(i := n # ls i)) k)) = {..<Suc n}" .
  from B D U show ?thesis by (simp add: cache_inv_def)
qed

lemma init_ls_Suc: "init_ls (Suc n) = (init_ls n)(0 := n # init_ls n 0)"
  by (auto simp: init_ls_def fun_eq_iff)

lemma binit_inv: "cache_inv n (binit n s) (init_ls n)"
proof -
  let ?a = "fold init_bucket [0..<NBUCKET] s"
  have "cache_inv k (fold (\<lambda>j. init_buf (Buf j)) [0..<k] ?a) (init_ls k)" for k
  proof (induction k)
    case 0
    show ?case
      by (simp add: cache_inv_def bucket_def init_ls_def fold_init_bucket)
  next
    case (Suc k)
    let ?s = "fold (\<lambda>j. init_buf (Buf j)) [0..<k] ?a"
    have "cache_inv (Suc k) (push_front 0 (Buf k) ?s) ((init_ls k)(0 := k # init_ls k 0))"
      using Suc by (rule push_front_new_inv) (simp add: NBUCKET_def)
    moreover have "cache_inv (Suc k) (init_buf (Buf k) ?s) ((init_ls k)(0 := k # init_ls k 0)) =
      cache_inv (Suc k) (push_front 0 (Buf k) ?s) ((init_ls k)(0 := k # init_ls k 0))"
      by (rule cache_inv_links) (simp add: init_buf_links)
    ultimately have H: "cache_inv (Suc k) (init_buf (Buf k) ?s) ((init_ls k)(0 := k # init_ls k 0))"
      by simp
    have F: "fold (\<lambda>j. init_buf (Buf j)) [0..<Suc k] ?a = init_buf (Buf k) ?s"
      by simp
    show ?case unfolding F init_ls_Suc by (rule H)
  qed
  then show ?thesis by (simp add: binit_def)
qed

lemma binit_blockno: "blockno (mem (binit n s) (Buf j)) = blockno (mem s (Buf j))"
proof -
  have 1: "blockno (mem (fold (\<lambda>j. init_buf (Buf j)) [0..<k] s') x) = blockno (mem s' x)" for k s' x
    by (induction k) (simp_all add: init_buf_blockno)
  show ?thesis
    by (simp add: binit_def 1 fold_init_bucket)
qed

lemma binit_placed:
  assumes "\<forall>j<n. blockno (mem s (Buf j)) = 0"
  shows "placed (binit n s) (init_ls n)"
  using assms by (auto simp: placed_def init_ls_def binit_blockno HASH_def)

lemma cache_ok_fields:
  assumes "cache_ok n s"
    and "\<And>x. next (mem s' x) = next (mem s x) \<and> prev (mem s' x) = prev (mem s x) \<and>
              blockno (mem s' x) = blockno (mem s x)"
  shows "cache_ok n s'"
proof -
  from assms(1) obtain ls where "cache_inv n s ls" "placed s ls" by (auto simp: cache_ok_def)
  moreover have "cache_inv n s' ls = cache_inv n s ls"
    by (rule cache_inv_links) (simp add: assms(2))
  moreover have "placed s' ls = placed s ls"
    by (rule placed_fields) (simp add: assms(2))
  ultimately show ?thesis by (auto simp: cache_ok_def)
qed

lemma bget_ok:
  assumes "cache_ok n s" and "bget t dv bn s = Some r"
  shows "cache_ok n (state_of r)"
proof -
  from assms(1) obtain ls where inv: "cache_inv n s ls" and pl: "placed s ls"
    by (auto simp: cache_ok_def)
  from inv show ?thesis
  proof (cases rule: bget_cases [where t = t and dv = dv and bn = bn])
    case spin
    with assms show ?thesis by auto
  next
    case (hit xs j ys)
    with assms(2) have "state_of r = upd (Buf j) (\<lambda>x. x\<lparr>refcnt := refcnt x + 1\<rparr>) s \<or>
       state_of r = upd (Buf j) (\<lambda>x. x\<lparr>refcnt := refcnt x + 1, lock := Some t\<rparr>) s"
      by (auto split: if_splits)
    then show ?thesis
      by (elim disjE) (rule cache_ok_fields [OF assms(1)], simp add: upd_simps)+
  next
    case panic
    with assms(2) have "state_of r = s\<lparr>spin := (spin s)(bcache_lock (HASH bn) := Some t)\<rparr>"
      by auto
    then show ?thesis by (intro cache_ok_fields [OF assms(1)]) simp
  next
    case (pick k i j)
    from pick(3,4) have i: "i < NBUCKET" by (simp add: NBUCKET_def)
    from pick(10) assms(2) have r: "r = commit t dv bn (HASH bn) i (Buf j) s" by simp
    have "cache_inv n (state_of r) (move j i (HASH bn) ls)"
      unfolding r using inv i pick(8) by (rule commit_inv)
    moreover have "placed (state_of r) (move j i (HASH bn) ls)"
      unfolding r using inv pl i pick(8) by (rule commit_placed)
    ultimately show ?thesis by (auto simp: cache_ok_def)
  qed
qed

lemma bread_ok:
  assumes "cache_ok n s" and "bread t dv bn s = Some r"
  shows "cache_ok n (state_of r)"
proof -
  from assms(2) obtain r1 where g: "bget t dv bn s = Some r1"
    by (auto simp: bread_def split: bind_splits)
  from bget_ok [OF assms(1) g] have w: "cache_ok n (state_of r1)" .
  show ?thesis
  proof (cases r1)
    case (Return b s1)
    with assms(2) g have "state_of r = s1 \<or>
        state_of r = upd b (\<lambda>x. x\<lparr>valid := True\<rparr>) (virtio_disk_rw b False s1)"
      by (auto simp: bread_def Let_def split: if_splits)
    then show ?thesis
    proof
      assume "state_of r = s1"
      with w Return show ?thesis by simp
    next
      assume e: "state_of r = upd b (\<lambda>x. x\<lparr>valid := True\<rparr>) (virtio_disk_rw b False s1)"
      from w Return have "cache_ok n s1" by simp
      then show ?thesis
        by (rule cache_ok_fields) (simp add: e upd_simps virtio_disk_rw_def Let_def)
    qed
  next
    case (Panic msg s1)
    with assms(2) g w show ?thesis by (auto simp: bread_def)
  next
    case (Spin s1)
    with assms(2) g w show ?thesis by (auto simp: bread_def)
  next
    case (Sleep s1)
    with assms(2) g w show ?thesis by (auto simp: bread_def)
  qed
qed

lemma completes_state: "completes r = Some s' \<Longrightarrow> state_of r = s'"
  by (cases r) auto

lemma bwrite_ok: "cache_ok n s \<Longrightarrow> cache_ok n (state_of (bwrite t b s))"
  by (erule cache_ok_fields) (simp add: bwrite_def virtio_disk_rw_def Let_def)

lemma brelse_ok: "cache_ok n s \<Longrightarrow> cache_ok n (state_of (brelse t b s))"
  by (erule cache_ok_fields)
     (simp add: brelse_def releasesleep_def acquire_def release_def Let_def upd_def
        split: option.splits)

lemma bpin_ok: "cache_ok n s \<Longrightarrow> cache_ok n (state_of (bpin t b s))"
  by (erule cache_ok_fields)
     (simp add: bpin_def acquire_def release_def Let_def upd_def split: option.splits)

lemma bunpin_ok: "cache_ok n s \<Longrightarrow> cache_ok n (state_of (bunpin t b s))"
  by (erule cache_ok_fields)
     (simp add: bunpin_def acquire_def release_def Let_def upd_def split: option.splits)

lemma step_ok:
  assumes "cache_ok n s" and "step n c s = Some s'"
  shows "cache_ok n s'"
proof (cases c)
  case (Bread t dv bn)
  with assms(2) obtain r where "bread t dv bn s = Some r" "completes r = Some s'"
    by (auto split: bind_splits)
  with bread_ok [OF assms(1), of t dv bn r] show ?thesis by (simp add: completes_state)
next
  case (Bwrite t j)
  with assms(2) have "state_of (bwrite t (Buf j) s) = s'"
    by (auto split: if_splits dest: completes_state)
  with bwrite_ok [OF assms(1), of t "Buf j"] show ?thesis by simp
next
  case (Brelse t j)
  with assms(2) have "state_of (brelse t (Buf j) s) = s'"
    by (auto split: if_splits dest: completes_state)
  with brelse_ok [OF assms(1), of t "Buf j"] show ?thesis by simp
next
  case (Bpin t j)
  with assms(2) have "state_of (bpin t (Buf j) s) = s'"
    by (auto split: if_splits dest: completes_state)
  with bpin_ok [OF assms(1), of t "Buf j"] show ?thesis by simp
next
  case (Bunpin t j)
  with assms(2) have "state_of (bunpin t (Buf j) s) = s'"
    by (auto split: if_splits dest: completes_state)
  with bunpin_ok [OF assms(1), of t "Buf j"] show ?thesis by simp
qed

lemma run_ok: "cache_ok n s \<Longrightarrow> run n cs s = Some s' \<Longrightarrow> cache_ok n s'"
proof (induction cs arbitrary: s)
  case Nil
  then show ?case by simp
next
  case (Cons c cs)
  from Cons.prems(2) obtain s1 where "step n c s = Some s1" "run n cs s1 = Some s'"
    by (auto split: bind_splits)
  with Cons.IH [of s1] step_ok [OF Cons.prems(1)] show ?case by blast
qed

lemma in_bucket_inv:
  assumes "cache_inv n s ls" and "i < NBUCKET"
  shows "in_bucket s i j = (j \<in> set (ls i))"
proof
  assume "in_bucket s i j"
  then obtain xs where xs: "bucket s i xs" "j \<in> set xs" by (auto simp: in_bucket_def)
  from assms have "bucket s i (ls i)" by (simp add: cache_inv_def)
  with xs(1) have "xs = ls i" by (rule bucket_unique)
  with xs(2) show "j \<in> set (ls i)" by simp
next
  assume "j \<in> set (ls i)"
  moreover from assms have "bucket s i (ls i)" by (simp add: cache_inv_def)
  ultimately show "in_bucket s i j" unfolding in_bucket_def by blast
qed

lemma in_bucket_unique:
  assumes "cache_inv n s ls" and "j < n"
  shows "\<exists>!i. i < NBUCKET \<and> in_bucket s i j"
proof -
  from assms have "j \<in> (\<Union>i<NBUCKET. set (ls i))" by (simp add: cache_inv_def)
  then obtain i where i: "i < NBUCKET" "j \<in> set (ls i)" by auto
  show ?thesis
  proof (rule ex1I [of _ i])
    show "i < NBUCKET \<and> in_bucket s i j"
      using i by (simp add: in_bucket_inv [OF assms(1)])
  next
    fix k assume k: "k < NBUCKET \<and> in_bucket s k j"
    then have "j \<in> set (ls k)" using in_bucket_inv [OF assms(1), of k j] by simp
    show "k = i"
    proof (rule ccontr)
      assume "k \<noteq> i"
      with assms(1) k i have "set (ls k) \<inter> set (ls i) = {}" by (simp add: cache_inv_def)
      with \<open>j \<in> set (ls k)\<close> i show False by auto
    qed
  qed
qed

lemma bget_returns_home:
  assumes inv: "cache_inv n s ls" and "bget t dv bn s = Some (Return b s1)"
  shows "\<exists>ls' j. b = Buf j \<and> j < n \<and> cache_inv n s1 ls' \<and> j \<in> set (ls' (HASH bn))"
  using inv
proof (cases rule: bget_cases [where t = t and dv = dv and bn = bn])
  case spin
  with assms(2) show ?thesis by simp
next
  case (hit xs j ys)
  from hit(5) assms(2) have b: "b = Buf j"
    and s1: "s1 = upd (Buf j) (\<lambda>x. x\<lparr>refcnt := refcnt x + 1, lock := Some t\<rparr>) s"
    by (auto split: if_splits)
  have "cache_inv n s1 ls" unfolding s1 using inv by (subst cache_inv_upd) simp_all
  moreover from hit(2) have j: "j \<in> set (ls (HASH bn))" by simp
  moreover from j inv HASH_less [of bn] have "j < n" by (auto simp: cache_inv_def)
  ultimately show ?thesis using b by blast
next
  case panic
  with assms(2) show ?thesis by simp
next
  case (pick k i j)
  from pick(3,4) have i: "i < NBUCKET" by (simp add: NBUCKET_def)
  from pick(10) assms(2) have c: "commit t dv bn (HASH bn) i (Buf j) s = Return b s1" by simp
  then have st: "state_of (commit t dv bn (HASH bn) i (Buf j) s) = s1" by simp
  have "cache_inv n s1 (move j i (HASH bn) ls)"
    using commit_inv [OF inv i pick(8), of t dv bn] by (simp add: st)
  moreover have "j \<in> set (move j i (HASH bn) ls (HASH bn))"
    using pick(8) by (auto simp: move_def)
  moreover from pick(8) inv i have "j < n" by (auto simp: cache_inv_def)
  ultimately show ?thesis using commit_Return(1) [OF c] by blast
qed

lemma bread_returns_home:
  assumes inv: "cache_inv n s ls" and "bread t dv bn s = Some (Return b s')"
  shows "\<exists>j<n. b = Buf j \<and> in_bucket s' (HASH bn) j"
proof -
  from assms(2) obtain s1 where g: "bget t dv bn s = Some (Return b s1)"
    and l: "\<And>x. next (mem s' x) = next (mem s1 x) \<and> prev (mem s' x) = prev (mem s1 x)"
    by (auto simp: bread_def Let_def upd_simps virtio_disk_rw_def
        split: bind_splits outcome.splits if_splits)
  from bget_returns_home [OF inv g] obtain ls' j where
    j: "b = Buf j" "j < n" "cache_inv n s1 ls'" "j \<in> set (ls' (HASH bn))" by blast
  have "cache_inv n s' ls' = cache_inv n s1 ls'" by (rule cache_inv_links) (rule l)
  with j(3) have "cache_inv n s' ls'" by simp
  with j(4) HASH_less [of bn] have "in_bucket s' (HASH bn) j" by (simp add: in_bucket_inv)
  with j(1,2) show ?thesis by blast
qed

text \<open>
  Claim C10. The home bucket of a request is \<open>HASH\<close> of its block number, the block
  number modulo 13, whatever the device: the buffer that a \<^verbatim>\<open>bread\<close> of device \<open>dv\<close> and
  block \<open>bn\<close> returns is in the list of bucket \<open>HASH bn\<close>. After \<^verbatim>\<open>binit\<close> on the zeroed
  \<^verbatim>\<open>bcache\<close> all buffers are in the list of bucket 0, with block number 0. After
  \<^verbatim>\<open>binit\<close> and any sequence of calls that complete, each buffer of the pool is in the
  list of exactly one bucket, and that is the bucket its block number hashes to.
\<close>

theorem cache_placement:
  assumes "\<forall>j<n. blockno (mem s0 (Buf j)) = 0"
    and "run n cs (binit n s0) = Some s"
  shows "HASH bn = unat bn mod 13 \<and>
         (cs = [] \<longrightarrow> bucket s 0 (rev [0..<n]) \<and> (\<forall>j<n. blockno (mem s (Buf j)) = 0)) \<and>
         (\<forall>j<n. \<exists>!i. i < NBUCKET \<and> in_bucket s i j) \<and>
         (\<forall>j<n. in_bucket s (HASH (blockno (mem s (Buf j)))) j) \<and>
         (\<forall>t dv b s'. bread t dv bn s = Some (Return b s') \<longrightarrow>
            (\<exists>j<n. b = Buf j \<and> in_bucket s' (HASH bn) j))"
proof -
  have 0: "cache_ok n (binit n s0)"
    using binit_inv [of n s0] binit_placed [OF assms(1)] by (auto simp: cache_ok_def)
  from run_ok [OF 0 assms(2)] obtain ls where inv: "cache_inv n s ls" and pl: "placed s ls"
    by (auto simp: cache_ok_def)
  have 1: "HASH bn = unat bn mod 13" by (simp add: HASH_def unat_mod)
  have 2: "cs = [] \<longrightarrow> bucket s 0 (rev [0..<n]) \<and> (\<forall>j<n. blockno (mem s (Buf j)) = 0)"
  proof
    assume "cs = []"
    with assms(2) have s: "s = binit n s0" by simp
    from binit_inv [of n s0] have "bucket (binit n s0) 0 (init_ls n 0)"
      by (simp add: cache_inv_def NBUCKET_def)
    with assms(1) show "bucket s 0 (rev [0..<n]) \<and> (\<forall>j<n. blockno (mem s (Buf j)) = 0)"
      by (simp add: s init_ls_def binit_blockno)
  qed
  have 3: "\<forall>j<n. \<exists>!i. i < NBUCKET \<and> in_bucket s i j"
    using inv by (simp add: in_bucket_unique)
  have 4: "\<forall>j<n. in_bucket s (HASH (blockno (mem s (Buf j)))) j"
  proof (intro allI impI)
    fix j assume "j < n"
    with inv have "j \<in> (\<Union>i<NBUCKET. set (ls i))" by (simp add: cache_inv_def)
    then obtain i where i: "i < NBUCKET" "j \<in> set (ls i)" by auto
    with pl have "HASH (blockno (mem s (Buf j))) = i" by (simp add: placed_def)
    with i show "in_bucket s (HASH (blockno (mem s (Buf j)))) j"
      by (simp add: in_bucket_inv [OF inv])
  qed
  have 5: "\<forall>t dv b s'. bread t dv bn s = Some (Return b s') \<longrightarrow>
            (\<exists>j<n. b = Buf j \<and> in_bucket s' (HASH bn) j)"
    using bread_returns_home [OF inv] by blast
  from 1 2 3 4 5 show ?thesis by blast
qed

lemma fold_init_bucket_rest:
  "spin (fold init_bucket [0..<k] s) l =
     (case l of bcache_lock i \<Rightarrow> if i < k then None else spin s l | tickslock \<Rightarrow> spin s l)"
  "ticks (fold init_bucket [0..<k] s) = ticks s"
  "disk (fold init_bucket [0..<k] s) = disk s"
  "io (fold init_bucket [0..<k] s) = io s"
  by (induction k) (auto simp: init_bucket_def initlock_def Let_def upd_def split: lockaddr.splits)

lemma init_buf_rest:
  "spin (init_buf b s) = spin s" "ticks (init_buf b s) = ticks s"
  "disk (init_buf b s) = disk s" "io (init_buf b s) = io s"
  by (simp_all add: init_buf_def initsleeplock_def Let_def upd_def)

lemma binit2: "binit 2 s = init_buf (Buf 1) (init_buf (Buf 0) (fold init_bucket [0..<NBUCKET] s))"
  by (simp add: binit_def upt_rec [of 0] upt_rec [of 1] upt_rec [of 2] numeral_2_eq_2)

lemma boot2_rest:
  "spin (binit 2 boot) l = None" "ticks (binit 2 boot) = 0" "io (binit 2 boot) = []"
  by (simp_all add: binit2 init_buf_rest fold_init_bucket_rest boot_def split: lockaddr.splits)

lemma boot2_mem:
  "mem (binit 2 boot) p =
     (if p = Buf 1 then
        \<lparr>valid = False, dev = 0, blockno = 0, lock = None, refcnt = 0,
         prev = Table 0, next = Buf 0, data = [], timestamp = 0\<rparr>
      else if p = Buf 0 then
        \<lparr>valid = False, dev = 0, blockno = 0, lock = None, refcnt = 0,
         prev = Buf 1, next = Table 0, data = [], timestamp = 0\<rparr>
      else if p = Table 0 then
        \<lparr>valid = False, dev = 0, blockno = 0, lock = None, refcnt = 0,
         prev = Buf 0, next = Buf 1, data = [], timestamp = 0\<rparr>
      else (case p of
          Table i \<Rightarrow> if i < NBUCKET then
              \<lparr>valid = False, dev = 0, blockno = 0, lock = None, refcnt = 0,
               prev = p, next = p, data = [], timestamp = 0\<rparr>
            else mem boot p
        | _ \<Rightarrow> mem boot p))"
  by (cases p)
     (simp_all add: binit2 init_buf_def initsleeplock_def upd_def Let_def fold_init_bucket
        NBUCKET_def boot_def)

lemma boot2_run:
  "\<exists>s. run 2 [Bread 7 1 12, Brelse 7 1] (binit 2 boot) = Some s \<and>
       blockno (mem s (Buf 0)) = 0 \<and> blockno (mem s (Buf 1)) = 12"
  by (simp add: bread_def bget_def HASH_def acquire_def cached.simps scan.simps lru.simps
      NBUCKET_def holding_def recycle_def release_def acquiresleep_def unlink_def push_front_def
      virtio_disk_rw_def brelse_def holdingsleep_def releasesleep_def
      upd_def Let_def boot2_mem boot2_rest)

text \<open>
  From the zeroed state, \<^verbatim>\<open>binit\<close> for two buffers, a \<^verbatim>\<open>bread\<close> of block 12 (which moves
  \<open>Buf 1\<close> from bucket 0 to bucket 12) and the \<^verbatim>\<open>brelse\<close> of that buffer: \<open>Buf 0\<close> is in
  the list of bucket 0 and \<open>Buf 1\<close> in the list of bucket 12.
\<close>

theorem cache_placement_witness:
  "\<exists>s. run 2 [Bread 7 1 12, Brelse 7 1] (binit 2 boot) = Some s \<and>
       (\<forall>j<2. \<exists>!i. i < NBUCKET \<and> in_bucket s i j) \<and>
       in_bucket s 0 0 \<and> in_bucket s 12 1"
proof -
  from boot2_run obtain s where r: "run 2 [Bread 7 1 12, Brelse 7 1] (binit 2 boot) = Some s"
    and b: "blockno (mem s (Buf 0)) = 0" "blockno (mem s (Buf 1)) = 12"
    by blast
  have z: "\<forall>j<2. blockno (mem boot (Buf j)) = 0" by (simp add: boot_def)
  have h: "HASH 0 = 0" "HASH 12 = 12" by (simp_all add: HASH_def)
  from cache_placement [OF z r]
  have u: "\<forall>j<2. \<exists>!i. i < NBUCKET \<and> in_bucket s i j"
    and p: "\<forall>j<2. in_bucket s (HASH (blockno (mem s (Buf j)))) j"
    by blast+
  from p have "in_bucket s (HASH (blockno (mem s (Buf 0)))) 0"
    and "in_bucket s (HASH (blockno (mem s (Buf 1)))) 1" by simp_all
  with b h have "in_bucket s 0 0" "in_bucket s 12 1" by simp_all
  with r u show ?thesis by blast
qed

subsection \<open>The victim of the scan, from binit on\<close>

text \<open>
  The state of the example is of the kind the calls produce. From the zeroed state,
  \<^verbatim>\<open>binit\<close> for two buffers; block 12 is read and released at tick 0 (in \<open>Buf 1\<close>, which
  moves to bucket 12), block 0 is read and released at tick 1 (in \<open>Buf 0\<close>, which stays in
  bucket 0). At tick 2 a read of block 13, whose home is bucket 0, takes \<open>Buf 0\<close>: the
  block used last is evicted, and block 12, idle and used before it, stays.
\<close>

lemma bread_evicts_recent:
  "\<exists>s1 s2 s3. run 2 [Bread 7 1 12, Brelse 7 1] (binit 2 boot) = Some s1 \<and>
     run 2 [Bread 7 1 0, Brelse 7 0] (tick s1) = Some s2 \<and>
     bread 7 1 13 (tick s2) = Some (Return (Buf 0) s3) \<and>
     blockno (mem s2 (Buf 0)) = 0 \<and> refcnt (mem s2 (Buf 0)) = 0 \<and>
     timestamp (mem s2 (Buf 0)) = 1 \<and>
     blockno (mem s2 (Buf 1)) = 12 \<and> refcnt (mem s2 (Buf 1)) = 0 \<and>
     timestamp (mem s2 (Buf 1)) = 0 \<and> spin s2 = (\<lambda>_. None)"
  by (simp add: bread_def bget_def HASH_def acquire_def cached.simps scan.simps lru.simps
      NBUCKET_def holding_def recycle_def release_def acquiresleep_def unlink_def push_front_def
      virtio_disk_rw_def brelse_def holdingsleep_def releasesleep_def tick_def
      upd_def Let_def boot2_mem boot2_rest fun_eq_iff)

end
